theory Spec2Isabelle
  imports Complex_Main "HOL-Library.Monad_Syntax"
begin

section \<open>Data model\<close>

text \<open>
  A board is a grid of cells (0 empty, 1 dark, 2 light), given as a list of rows.
  A move is a pair (column, row).  Colours are the Python integers 1 and 2.
\<close>

type_synonym board = "int list list"
type_synonym move = "int \<times> int"

text \<open>
  Utilities during search are Python integers together with the two sentinels
  \<^verbatim>\<open>float("-inf")\<close> and \<^verbatim>\<open>float("inf")\<close>.
\<close>

datatype util = NegInf | Fin int | PosInf

fun util_le :: "util \<Rightarrow> util \<Rightarrow> bool" where
  "util_le NegInf _ = True"
| "util_le (Fin a) NegInf = False"
| "util_le (Fin a) (Fin b) = (a \<le> b)"
| "util_le (Fin a) PosInf = True"
| "util_le PosInf PosInf = True"
| "util_le PosInf _ = False"

instantiation util :: linorder
begin

definition less_eq_util :: "util \<Rightarrow> util \<Rightarrow> bool" where
  "less_eq_util x y = util_le x y"

definition less_util :: "util \<Rightarrow> util \<Rightarrow> bool" where
  "less_util x y = (util_le x y \<and> \<not> util_le y x)"

instance
proof
  fix x y z :: util
  show "(x < y) = (x \<le> y \<and> \<not> y \<le> x)"
    by (simp add: less_eq_util_def less_util_def)
  show "x \<le> x"
    by (cases x) (simp_all add: less_eq_util_def)
  show "x \<le> y \<Longrightarrow> y \<le> z \<Longrightarrow> x \<le> z"
    by (cases x; cases y; cases z) (simp_all add: less_eq_util_def)
  show "x \<le> y \<Longrightarrow> y \<le> x \<Longrightarrow> x = y"
    by (cases x; cases y) (simp_all add: less_eq_util_def)
  show "x \<le> y \<or> y \<le> x"
    by (cases x; cases y) (auto simp add: less_eq_util_def)
qed

end

text \<open>
  The functions imported from \<^verbatim>\<open>othello_shared\<close> are not part of the sources
  at hand; the search code is parametric in them.
\<close>

record othello_shared =
  get_possible_moves :: "board \<Rightarrow> int \<Rightarrow> move list"
  play_move :: "board \<Rightarrow> int \<Rightarrow> int \<Rightarrow> int \<Rightarrow> board"
  get_score :: "board \<Rightarrow> int \<times> int"

text \<open>The module-level dictionary \<^verbatim>\<open>cache\<close>, keyed by board.\<close>

type_synonym cache = "board \<rightharpoonup> util"

type_synonym node_result = "(move option \<times> util) \<times> cache"

section \<open>Utility\<close>

definition compute_utility :: "othello_shared \<Rightarrow> board \<Rightarrow> int \<Rightarrow> int" where
  "compute_utility lib board color =
     (case get_score lib board of (num_dark, num_light) \<Rightarrow>
        if color = 1 then num_dark - num_light else num_light - num_dark)"

section \<open>Minimax\<close>

text \<open>
  The two node functions recurse until a board has no moves or \<^verbatim>\<open>limit\<close> reaches 0;
  a negative limit never reaches 0.  The first argument after the library bounds the
  recursion depth: \<open>None\<close> means that the bound was hit before the call returned.
  The \<^verbatim>\<open>for\<close> loops are the two loop functions; they carry
  \<^verbatim>\<open>(best_move, min_util)\<close> and the cache.
\<close>

function minimax_min_node :: "othello_shared \<Rightarrow> nat \<Rightarrow> cache \<Rightarrow> board \<Rightarrow> int \<Rightarrow> int \<Rightarrow> int \<Rightarrow> node_result option"
  and minimax_min_loop :: "othello_shared \<Rightarrow> nat \<Rightarrow> cache \<Rightarrow> board \<Rightarrow> int \<Rightarrow> int \<Rightarrow> int \<Rightarrow> int \<Rightarrow> move list
        \<Rightarrow> move option \<times> util \<Rightarrow> node_result option"
  and minimax_max_node :: "othello_shared \<Rightarrow> nat \<Rightarrow> cache \<Rightarrow> board \<Rightarrow> int \<Rightarrow> int \<Rightarrow> int \<Rightarrow> node_result option"
  and minimax_max_loop :: "othello_shared \<Rightarrow> nat \<Rightarrow> cache \<Rightarrow> board \<Rightarrow> int \<Rightarrow> int \<Rightarrow> int \<Rightarrow> move list
        \<Rightarrow> move option \<times> util \<Rightarrow> node_result option"
where
  "minimax_min_node lib 0 cache board color limit caching = None"
| "minimax_min_node lib (Suc fuel) cache board color limit caching =
     (case (if caching \<noteq> 0 then cache board else None) of
        Some v \<Rightarrow> Some ((None, v), cache)
      | None \<Rightarrow>
          let opponent = (if color = 1 then 2 else 1);
              moves = get_possible_moves lib board opponent
          in if moves = [] \<or> limit = 0 then
               let util = Fin (compute_utility lib board color)
               in Some ((None, util), if caching \<noteq> 0 then cache(board := Some util) else cache)
             else
               case minimax_min_loop lib fuel cache board color limit caching opponent moves (None, PosInf) of
                 None \<Rightarrow> None
               | Some ((best_move, min_util), cache') \<Rightarrow>
                   Some ((best_move, min_util),
                         if caching \<noteq> 0 then cache'(board := Some min_util) else cache'))"
| "minimax_min_loop lib fuel cache board color limit caching opponent [] best = Some (best, cache)"
| "minimax_min_loop lib fuel cache board color limit caching opponent (move # moves) best =
     (let new_board = play_move lib board opponent (fst move) (snd move)
      in case minimax_max_node lib fuel cache new_board color (limit - 1) caching of
           None \<Rightarrow> None
         | Some ((_, new_util), cache') \<Rightarrow>
             minimax_min_loop lib fuel cache' board color limit caching opponent moves
               (if new_util < snd best then (Some move, new_util) else best))"
| "minimax_max_node lib 0 cache board color limit caching = None"
| "minimax_max_node lib (Suc fuel) cache board color limit caching =
     (case (if caching \<noteq> 0 then cache board else None) of
        Some v \<Rightarrow> Some ((None, v), cache)
      | None \<Rightarrow>
          let moves = get_possible_moves lib board color
          in if moves = [] \<or> limit = 0 then
               let util = Fin (compute_utility lib board color)
               in Some ((None, util), if caching \<noteq> 0 then cache(board := Some util) else cache)
             else
               case minimax_max_loop lib fuel cache board color limit caching moves (None, NegInf) of
                 None \<Rightarrow> None
               | Some ((best_move, max_util), cache') \<Rightarrow>
                   Some ((best_move, max_util),
                         if caching \<noteq> 0 then cache'(board := Some max_util) else cache'))"
| "minimax_max_loop lib fuel cache board color limit caching [] best = Some (best, cache)"
| "minimax_max_loop lib fuel cache board color limit caching (move # moves) best =
     (let new_board = play_move lib board color (fst move) (snd move)
      in case minimax_min_node lib fuel cache new_board color (limit - 1) caching of
           None \<Rightarrow> None
         | Some ((_, new_util), cache') \<Rightarrow>
             minimax_max_loop lib fuel cache' board color limit caching moves
               (if new_util > snd best then (Some move, new_util) else best))"
  by pat_completeness auto
termination
  by (relation "measures
      [\<lambda>x. case x of
          Inl (Inl (lib, fuel, r)) \<Rightarrow> 2 * fuel
        | Inl (Inr (lib, fuel, r)) \<Rightarrow> 2 * fuel + 1
        | Inr (Inl (lib, fuel, r)) \<Rightarrow> 2 * fuel
        | Inr (Inr (lib, fuel, r)) \<Rightarrow> 2 * fuel + 1,
       \<lambda>x. case x of
          Inl (Inl r) \<Rightarrow> 0
        | Inl (Inr (lib, fuel, cache, board, color, limit, caching, opponent, moves, best)) \<Rightarrow> length moves
        | Inr (Inl r) \<Rightarrow> 0
        | Inr (Inr (lib, fuel, cache, board, color, limit, caching, moves, best)) \<Rightarrow> length moves]")
    auto

definition select_move_minimax ::
  "othello_shared \<Rightarrow> nat \<Rightarrow> cache option \<Rightarrow> board \<Rightarrow> int \<Rightarrow> int \<Rightarrow> int
     \<Rightarrow> (move option \<times> cache option) option" where
  "select_move_minimax lib fuel global_cache board color limit caching =
     (let cache = Map.empty
      in case minimax_max_node lib fuel cache board color limit caching of
           None \<Rightarrow> None
         | Some (r, cache') \<Rightarrow> Some (fst r, Some cache'))"

section \<open>Alpha-beta pruning\<close>

text \<open>
  \<^verbatim>\<open>list.sort\<close> is stable; with \<^verbatim>\<open>reverse=True\<close> it sorts by descending key and
  still keeps the original order among equal keys.
\<close>

definition sort_ascending :: "othello_shared \<Rightarrow> int \<Rightarrow> (board \<times> move) list \<Rightarrow> (board \<times> move) list" where
  "sort_ascending lib color successors =
     sort_key (\<lambda>successor. compute_utility lib (fst successor) color) successors"

definition sort_descending :: "othello_shared \<Rightarrow> int \<Rightarrow> (board \<times> move) list \<Rightarrow> (board \<times> move) list" where
  "sort_descending lib color successors =
     sort_key (\<lambda>successor. - compute_utility lib (fst successor) color) successors"

function alphabeta_min_node ::
    "othello_shared \<Rightarrow> nat \<Rightarrow> cache \<Rightarrow> board \<Rightarrow> int \<Rightarrow> util \<Rightarrow> util \<Rightarrow> int \<Rightarrow> int \<Rightarrow> int \<Rightarrow> node_result option"
  and alphabeta_min_loop ::
    "othello_shared \<Rightarrow> nat \<Rightarrow> cache \<Rightarrow> int \<Rightarrow> util \<Rightarrow> util \<Rightarrow> int \<Rightarrow> int \<Rightarrow> int \<Rightarrow> (board \<times> move) list
       \<Rightarrow> move option \<times> util \<Rightarrow> node_result option"
  and alphabeta_max_node ::
    "othello_shared \<Rightarrow> nat \<Rightarrow> cache \<Rightarrow> board \<Rightarrow> int \<Rightarrow> util \<Rightarrow> util \<Rightarrow> int \<Rightarrow> int \<Rightarrow> int \<Rightarrow> node_result option"
  and alphabeta_max_loop ::
    "othello_shared \<Rightarrow> nat \<Rightarrow> cache \<Rightarrow> int \<Rightarrow> util \<Rightarrow> util \<Rightarrow> int \<Rightarrow> int \<Rightarrow> int \<Rightarrow> (board \<times> move) list
       \<Rightarrow> move option \<times> util \<Rightarrow> node_result option"
where
  "alphabeta_min_node lib 0 cache board color alpha beta limit caching ordering' = None"
| "alphabeta_min_node lib (Suc fuel) cache board color alpha beta limit caching ordering' =
     (case (if caching \<noteq> 0 then cache board else None) of
        Some v \<Rightarrow> Some ((None, v), cache)
      | None \<Rightarrow>
          let opponent = (if color = 1 then 2 else 1);
              moves = get_possible_moves lib board opponent
          in if moves = [] \<or> limit = 0 then
               let util = Fin (compute_utility lib board color)
               in Some ((None, util), if caching \<noteq> 0 then cache(board := Some util) else cache)
             else
               let successors = map (\<lambda>move. (play_move lib board opponent (fst move) (snd move), move)) moves;
                   successors = (if ordering' \<noteq> 0 then sort_ascending lib color successors else successors)
               in case alphabeta_min_loop lib fuel cache color alpha beta limit caching ordering' successors
                         (None, PosInf) of
                    None \<Rightarrow> None
                  | Some ((best_move, min_util), cache') \<Rightarrow>
                      Some ((best_move, min_util),
                            if caching \<noteq> 0 then cache'(board := Some min_util) else cache'))"
| "alphabeta_min_loop lib fuel cache color alpha beta limit caching ordering' [] best = Some (best, cache)"
| "alphabeta_min_loop lib fuel cache color alpha beta limit caching ordering' (successor # successors) best =
     (case alphabeta_max_node lib fuel cache (fst successor) color alpha beta (limit - 1) caching ordering' of
        None \<Rightarrow> None
      | Some ((_, new_util), cache') \<Rightarrow>
          let best = (if new_util < snd best then (Some (snd successor), new_util) else best)
          in if snd best \<le> alpha then Some (best, cache')
             else alphabeta_min_loop lib fuel cache' color alpha (min beta (snd best)) limit caching ordering'
                    successors best)"
| "alphabeta_max_node lib 0 cache board color alpha beta limit caching ordering' = None"
| "alphabeta_max_node lib (Suc fuel) cache board color alpha beta limit caching ordering' =
     (case (if caching \<noteq> 0 then cache board else None) of
        Some v \<Rightarrow> Some ((None, v), cache)
      | None \<Rightarrow>
          let moves = get_possible_moves lib board color
          in if moves = [] \<or> limit = 0 then
               let util = Fin (compute_utility lib board color)
               in Some ((None, util), if caching \<noteq> 0 then cache(board := Some util) else cache)
             else
               let successors = map (\<lambda>move. (play_move lib board color (fst move) (snd move), move)) moves;
                   successors = (if ordering' \<noteq> 0 then sort_descending lib color successors else successors)
               in case alphabeta_max_loop lib fuel cache color alpha beta limit caching ordering' successors
                         (None, NegInf) of
                    None \<Rightarrow> None
                  | Some ((best_move, max_util), cache') \<Rightarrow>
                      Some ((best_move, max_util),
                            if caching \<noteq> 0 then cache'(board := Some max_util) else cache'))"
| "alphabeta_max_loop lib fuel cache color alpha beta limit caching ordering' [] best = Some (best, cache)"
| "alphabeta_max_loop lib fuel cache color alpha beta limit caching ordering' (successor # successors) best =
     (case alphabeta_min_node lib fuel cache (fst successor) color alpha beta (limit - 1) caching ordering' of
        None \<Rightarrow> None
      | Some ((_, new_util), cache') \<Rightarrow>
          let best = (if new_util > snd best then (Some (snd successor), new_util) else best)
          in if snd best \<ge> beta then Some (best, cache')
             else alphabeta_max_loop lib fuel cache' color (max alpha (snd best)) beta limit caching ordering'
                    successors best)"
  by pat_completeness auto
termination
  by (relation "measures
      [\<lambda>x. case x of
          Inl (Inl (lib, fuel, r)) \<Rightarrow> 2 * fuel
        | Inl (Inr (lib, fuel, r)) \<Rightarrow> 2 * fuel + 1
        | Inr (Inl (lib, fuel, r)) \<Rightarrow> 2 * fuel
        | Inr (Inr (lib, fuel, r)) \<Rightarrow> 2 * fuel + 1,
       \<lambda>x. case x of
          Inl (Inl r) \<Rightarrow> 0
        | Inl (Inr (lib, fuel, cache, color, alpha, beta, limit, caching, ordering', successors, best)) \<Rightarrow>
            length successors
        | Inr (Inl r) \<Rightarrow> 0
        | Inr (Inr (lib, fuel, cache, color, alpha, beta, limit, caching, ordering', successors, best)) \<Rightarrow>
            length successors]")
    auto

definition select_move_alphabeta ::
  "othello_shared \<Rightarrow> nat \<Rightarrow> cache option \<Rightarrow> board \<Rightarrow> int \<Rightarrow> int \<Rightarrow> int \<Rightarrow> int
     \<Rightarrow> (move option \<times> cache option) option" where
  "select_move_alphabeta lib fuel global_cache board color limit caching ordering' =
     (let cache = Map.empty
      in case alphabeta_max_node lib fuel cache board color NegInf PosInf (limit - 1) caching ordering' of
           None \<Rightarrow> None
         | Some (r, cache') \<Rightarrow> Some (fst r, Some cache'))"

section \<open>An instance of the library: the rules of Othello\<close>

text \<open>
  Modelled from the spec: the module \<^verbatim>\<open>othello_shared\<close> (\<^verbatim>\<open>get_possible_moves\<close>,
  \<^verbatim>\<open>play_move\<close>, \<^verbatim>\<open>get_score\<close>) is missing from the sources.  The spec gives its
  interface (legal moves of a colour in a fixed enumeration order, the successor board of
  a move, the pair of piece counts) and names the game, Othello.  The definitions below
  are the standard rules: a move is legal on an empty square from which, in at least one
  of the eight directions, a non-empty run of opponent discs ends in a disc of the mover;
  playing it places a disc there and flips those runs.  Moves are (column, row); squares
  are enumerated column by column.
\<close>

definition cell :: "board \<Rightarrow> int \<Rightarrow> int \<Rightarrow> int" where
  "cell board u v = board ! nat v ! nat u"

definition directions :: "(int \<times> int) list" where
  "directions = [(0, 1), (1, 1), (1, 0), (1, -1), (0, -1), (-1, -1), (-1, 0), (-1, 1)]"

definition ray :: "board \<Rightarrow> int \<Rightarrow> int \<Rightarrow> int \<times> int \<Rightarrow> (int \<times> int) list" where
  "ray board i j d =
     (let n = int (length board)
      in takeWhile (\<lambda>(u, v). 0 \<le> u \<and> u < n \<and> 0 \<le> v \<and> v < n)
           (map (\<lambda>k. (i + int k * fst d, j + int k * snd d)) [1..<Suc (length board)]))"

fun scan_line :: "board \<Rightarrow> int \<Rightarrow> (int \<times> int) list \<Rightarrow> (int \<times> int) list \<Rightarrow> (int \<times> int) list" where
  "scan_line board player [] line = []"
| "scan_line board player ((u, v) # rest) line =
     (if cell board u v = 0 then []
      else if cell board u v = player then line
      else scan_line board player rest (line @ [(u, v)]))"

definition find_lines :: "board \<Rightarrow> int \<Rightarrow> int \<Rightarrow> int \<Rightarrow> (int \<times> int) list list" where
  "find_lines board i j player =
     filter (\<lambda>line. line \<noteq> []) (map (\<lambda>d. scan_line board player (ray board i j d) []) directions)"

definition othello_get_possible_moves :: "board \<Rightarrow> int \<Rightarrow> move list" where
  "othello_get_possible_moves board player =
     (let n = length board
      in filter (\<lambda>(i, j). cell board i j = 0 \<and> find_lines board i j player \<noteq> [])
           (concat (map (\<lambda>i. map (\<lambda>j. (int i, int j)) [0..<n]) [0..<n])))"

definition set_cell :: "board \<Rightarrow> int \<Rightarrow> int \<times> int \<Rightarrow> board" where
  "set_cell board player p = board[nat (snd p) := (board ! nat (snd p))[nat (fst p) := player]]"

definition othello_play_move :: "board \<Rightarrow> int \<Rightarrow> int \<Rightarrow> int \<Rightarrow> board" where
  "othello_play_move board player i j =
     foldl (\<lambda>b p. set_cell b player p) (set_cell board player (i, j)) (concat (find_lines board i j player))"

text \<open>The number of discs of a colour on a board.\<close>

definition count_color :: "board \<Rightarrow> int \<Rightarrow> int" where
  "count_color board color = int (length (filter (\<lambda>e. e = color) (concat board)))"

definition othello_get_score :: "board \<Rightarrow> int \<times> int" where
  "othello_get_score board = (count_color board 1, count_color board 2)"

definition othello :: othello_shared where
  "othello = \<lparr> get_possible_moves = othello_get_possible_moves,
               play_move = othello_play_move,
               get_score = othello_get_score \<rparr>"

section \<open>The heuristic\<close>

text \<open>
  Indexing a Python sequence: a negative index counts from the end, an index out of range
  raises \<^verbatim>\<open>IndexError\<close>, here \<open>None\<close>.
\<close>

definition py_get :: "'a list \<Rightarrow> int \<Rightarrow> 'a option" where
  "py_get xs i =
     (let n = int (length xs)
      in if 0 \<le> i \<and> i < n then Some (xs ! nat i)
         else if - n \<le> i \<and> i < 0 then Some (xs ! nat (n + i))
         else None)"

definition board_get :: "board \<Rightarrow> int \<Rightarrow> int \<Rightarrow> int option" where
  "board_get board i j = do { row \<leftarrow> py_get board i; py_get row j }"

text \<open>
  \<^verbatim>\<open>check_empty\<close> visits the in-range neighbours of \<^verbatim>\<open>coordinates\<close> row by row and
  returns at the first empty one.
\<close>

fun check_cells :: "board \<Rightarrow> (int \<times> int) list \<Rightarrow> bool option" where
  "check_cells board [] = Some False"
| "check_cells board ((i, j) # rest) =
     do { x \<leftarrow> board_get board i j;
          if x = 0 then Some True else check_cells board rest }"

definition check_empty :: "board \<Rightarrow> int \<times> int \<Rightarrow> bool option" where
  "check_empty board coordinates =
     (let n = int (length board)
      in check_cells board
           (concat (map (\<lambda>i. if 0 \<le> i \<and> i \<le> n - 1
                               then filter (\<lambda>(i, j). (0 \<le> j \<and> j \<le> n - 1) \<and> (i, j) \<noteq> coordinates)
                                      (map (\<lambda>j. (i, j)) [snd coordinates - 1..snd coordinates + 1])
                               else [])
                        [fst coordinates - 1..fst coordinates + 1])))"

fun count_cells :: "board \<Rightarrow> int \<Rightarrow> (int \<times> int) list \<Rightarrow> int \<Rightarrow> int option" where
  "count_cells board color [] total' = Some total'"
| "count_cells board color ((i, j) # rest) total' =
     do { x \<leftarrow> board_get board i j;
          if x = color
          then do { e \<leftarrow> check_empty board (i, j);
                    count_cells board color rest (if e then total' + 1 else total') }
          else count_cells board color rest total' }"

definition count_empty :: "board \<Rightarrow> int \<Rightarrow> int option" where
  "count_empty board color =
     (let n = int (length board)
      in count_cells board color (concat (map (\<lambda>i. map (\<lambda>j. (i, j)) [0..n - 1]) [0..n - 1])) 0)"

fun count_corners :: "board \<Rightarrow> int \<Rightarrow> int \<Rightarrow> (int \<times> int) list \<Rightarrow> int \<times> int \<Rightarrow> (int \<times> int) option" where
  "count_corners board color opponent [] counts = Some counts"
| "count_corners board color opponent (corner # corners) (my_corners, opp_corners) =
     do { corner_color \<leftarrow> board_get board (fst corner) (snd corner);
          count_corners board color opponent corners
            (if corner_color = color then (my_corners + 1, opp_corners)
             else if corner_color = opponent then (my_corners, opp_corners + 1)
             else (my_corners, opp_corners)) }"

text \<open>
  Python's \<^verbatim>\<open>float\<close> is the IEEE 754 binary64 format, and every operation returns the
  exact result rounded to the nearest float, a tie going to the float with an even
  significand.  A float is modelled by the real number it denotes.  For \<open>x\<close> with
  \<^verbatim>\<open>2^e <= |x| < 2^(e+1)\<close> the floats around \<open>x\<close> are the multiples of \<^verbatim>\<open>2^(e-52)\<close>,
  and below \<^verbatim>\<open>2^(-1022)\<close> they are the multiples of \<^verbatim>\<open>2^(-1074)\<close>.  The values in
  \<^verbatim>\<open>compute_heuristic\<close> stay below 301 in magnitude, so the overflow to infinity at
  \<^verbatim>\<open>2^1024\<close> is not modelled, and no operation there yields a negative zero.
\<close>

definition round_half_even :: "real \<Rightarrow> int" where
  "round_half_even x =
     (let f = \<lfloor>x\<rfloor>; d = x - of_int f
      in if d < 1 / 2 then f else if 1 / 2 < d then f + 1 else if even f then f else f + 1)"

fun exponent_up :: "nat \<Rightarrow> int \<Rightarrow> real \<Rightarrow> int" where
  "exponent_up 0 e x = e"
| "exponent_up (Suc k) e x = (if 2 powi (e + 1) \<le> x then exponent_up k (e + 1) x else e)"

fun exponent_down :: "nat \<Rightarrow> int \<Rightarrow> real \<Rightarrow> int" where
  "exponent_down 0 e x = e"
| "exponent_down (Suc k) e x = (if 2 powi e \<le> x then e else exponent_down k (e - 1) x)"

text \<open>The binary exponent of a float of the size of \<open>x\<close>, between -1022 and 1023.\<close>

definition exponent :: "real \<Rightarrow> int" where
  "exponent x = (if 1 \<le> \<bar>x\<bar> then exponent_up 1023 0 \<bar>x\<bar> else exponent_down 1021 (- 1) \<bar>x\<bar>)"

definition ulp :: "real \<Rightarrow> real" where
  "ulp x = 2 powi (exponent x - 52)"

definition float_round :: "real \<Rightarrow> real" where
  "float_round x = of_int (round_half_even (x / ulp x)) * ulp x"

text \<open>
  Python's \<^verbatim>\<open>/\<close> on two integers is true division: the exact quotient, rounded once.  In
  \<^verbatim>\<open>100 * x\<close> and in \<^verbatim>\<open>result += x\<close> the integers 100 and 0 are converted to the floats
  100.0 and 0.0, which they are exactly.  When all three denominators are 0 the code returns
  the integer 0 it started with, here the real number 0.  An index out of range raises
  \<^verbatim>\<open>IndexError\<close>, here \<open>None\<close>.
\<close>

definition float_div :: "int \<Rightarrow> int \<Rightarrow> real" where
  "float_div a b = float_round (of_int a / of_int b)"

definition float_mul :: "real \<Rightarrow> real \<Rightarrow> real" where
  "float_mul x y = float_round (x * y)"

definition float_add :: "real \<Rightarrow> real \<Rightarrow> real" where
  "float_add x y = float_round (x + y)"

definition compute_heuristic :: "othello_shared \<Rightarrow> board \<Rightarrow> int \<Rightarrow> real option" where
  "compute_heuristic lib board color =
     (let opponent = (if color = 1 then 2 else 1);
          result = 0;
          my_mobility = int (length (get_possible_moves lib board color));
          opp_mobility = int (length (get_possible_moves lib board opponent));
          result = (if my_mobility + opp_mobility \<noteq> 0
                    then float_add result
                           (float_mul 100 (float_div (my_mobility - opp_mobility) (my_mobility + opp_mobility)))
                    else result)
      in do {
        my_potmobility \<leftarrow> count_empty board color;
        opp_potmobility \<leftarrow> count_empty board opponent;
        let result = (if my_potmobility + opp_potmobility \<noteq> 0
                      then float_add result
                             (float_mul 100 (float_div (my_potmobility - opp_potmobility)
                                                       (my_potmobility + opp_potmobility)))
                      else result);
        let n = int (length board);
        let corners = [(0, 0), (0, n - 1), (n - 1, 0), (n - 1, n - 1)];
        (my_corners, opp_corners) \<leftarrow> count_corners board color opponent corners (0, 0);
        Some (if my_corners + opp_corners \<noteq> 0
              then float_add result
                     (float_mul 100 (float_div (my_corners - opp_corners) (my_corners + opp_corners)))
              else result)
      })"

section \<open>Auxiliary notions for the statements\<close>

text \<open>
  The opponent's colour, the cache lookup and the cache write of a node under the caching
  flag, and the successor lists of the alpha-beta nodes, named so that the statements about
  the node functions can refer to them.
\<close>

definition other :: "int \<Rightarrow> int" where
  "other color = (if color = 1 then 2 else 1)"

definition lookup :: "int \<Rightarrow> cache \<Rightarrow> board \<Rightarrow> util option" where
  "lookup caching c b = (if caching \<noteq> 0 then c b else None)"

definition store :: "int \<Rightarrow> cache \<Rightarrow> board \<Rightarrow> util \<Rightarrow> cache" where
  "store caching c b v = (if caching \<noteq> 0 then c(b := Some v) else c)"

definition finish :: "int \<Rightarrow> board \<Rightarrow> node_result \<Rightarrow> node_result" where
  "finish caching b r = (fst r, store caching (snd r) b (snd (fst r)))"

definition min_successors :: "othello_shared \<Rightarrow> board \<Rightarrow> int \<Rightarrow> int \<Rightarrow> (board \<times> move) list" where
  "min_successors lib board color ordering' =
     (let successors = map (\<lambda>move. (play_move lib board (other color) (fst move) (snd move), move))
                         (get_possible_moves lib board (other color))
      in if ordering' \<noteq> 0 then sort_ascending lib color successors else successors)"

definition max_successors :: "othello_shared \<Rightarrow> board \<Rightarrow> int \<Rightarrow> int \<Rightarrow> (board \<times> move) list" where
  "max_successors lib board color ordering' =
     (let successors = map (\<lambda>move. (play_move lib board color (fst move) (snd move), move))
                         (get_possible_moves lib board color)
      in if ordering' \<noteq> 0 then sort_descending lib color successors else successors)"

text \<open>
  The selectors return only the move.  The pair (move, value) that the root call inside
  a selector computes:
\<close>

definition minimax_root :: "othello_shared \<Rightarrow> nat \<Rightarrow> board \<Rightarrow> int \<Rightarrow> int \<Rightarrow> int \<Rightarrow> (move option \<times> util) option" where
  "minimax_root lib fuel board color limit caching =
     map_option fst (minimax_max_node lib fuel Map.empty board color limit caching)"

definition alphabeta_root ::
  "othello_shared \<Rightarrow> nat \<Rightarrow> board \<Rightarrow> int \<Rightarrow> int \<Rightarrow> int \<Rightarrow> int \<Rightarrow> (move option \<times> util) option" where
  "alphabeta_root lib fuel board color limit caching ordering' =
     map_option fst (alphabeta_max_node lib fuel Map.empty board color NegInf PosInf (limit - 1) caching ordering')"

text \<open>One step of the \<^verbatim>\<open>for\<close> loops: the update of \<^verbatim>\<open>(best_move, min_util)\<close>.\<close>

definition min_step :: "move \<Rightarrow> node_result \<Rightarrow> move option \<times> util \<Rightarrow> move option \<times> util" where
  "min_step m r best = (if snd (fst r) < snd best then (Some m, snd (fst r)) else best)"

definition max_step :: "move \<Rightarrow> node_result \<Rightarrow> move option \<times> util \<Rightarrow> move option \<times> util" where
  "max_step m r best = (if snd (fst r) > snd best then (Some m, snd (fst r)) else best)"

text \<open>Values that are the exact score differential of some board, and caches that hold only such values.\<close>

definition is_utility :: "othello_shared \<Rightarrow> int \<Rightarrow> util \<Rightarrow> bool" where
  "is_utility lib color v = (\<exists>b. v = Fin (compute_utility lib b color))"

definition utility_cache :: "othello_shared \<Rightarrow> int \<Rightarrow> cache \<Rightarrow> bool" where
  "utility_cache lib color c = (\<forall>b v. c b = Some v \<longrightarrow> is_utility lib color v)"

definition max_best_ok :: "othello_shared \<Rightarrow> int \<Rightarrow> move option \<times> util \<Rightarrow> bool" where
  "max_best_ok lib color best = (best = (None, NegInf) \<or> (fst best \<noteq> None \<and> is_utility lib color (snd best)))"

definition min_best_ok :: "othello_shared \<Rightarrow> int \<Rightarrow> move option \<times> util \<Rightarrow> bool" where
  "min_best_ok lib color best = (best = (None, PosInf) \<or> (fst best \<noteq> None \<and> is_utility lib color (snd best)))"

text \<open>What holds of the result of a node and of a loop.\<close>

definition node_ok :: "othello_shared \<Rightarrow> int \<Rightarrow> node_result \<Rightarrow> bool" where
  "node_ok lib col r = (utility_cache lib col (snd r) \<and> is_utility lib col (snd (fst r)))"

definition loop_ok :: "othello_shared \<Rightarrow> int \<Rightarrow> bool \<Rightarrow> move option \<times> util \<Rightarrow> node_result \<Rightarrow> bool" where
  "loop_ok lib col nonempty best r =
     (utility_cache lib col (snd r) \<and>
      (if nonempty then fst (fst r) \<noteq> None \<and> is_utility lib col (snd (fst r)) else fst r = best))"

text \<open>
  The values of the children of a minimax node in the order of the moves, and the index of
  the first greatest (least) of them.
\<close>

definition with_cache :: "cache \<Rightarrow> node_result option \<Rightarrow> node_result option" where
  "with_cache c x = map_option (\<lambda>r. (fst r, c)) x"

definition max_node_children :: "othello_shared \<Rightarrow> nat \<Rightarrow> cache \<Rightarrow> board \<Rightarrow> int \<Rightarrow> int \<Rightarrow> util option list" where
  "max_node_children lib fuel cache board color limit =
     map (\<lambda>move. map_option (\<lambda>r. snd (fst r))
            (minimax_min_node lib fuel cache (play_move lib board color (fst move) (snd move)) color (limit - 1) 0))
         (get_possible_moves lib board color)"

definition min_node_children :: "othello_shared \<Rightarrow> nat \<Rightarrow> cache \<Rightarrow> board \<Rightarrow> int \<Rightarrow> int \<Rightarrow> util option list" where
  "min_node_children lib fuel cache board color limit =
     map (\<lambda>move. map_option (\<lambda>r. snd (fst r))
            (minimax_max_node lib fuel cache (play_move lib board (other color) (fst move) (snd move)) color (limit - 1) 0))
         (get_possible_moves lib board (other color))"

definition first_greatest :: "util list \<Rightarrow> nat \<Rightarrow> bool" where
  "first_greatest vs i = (i < length vs \<and> (\<forall>j<length vs. vs ! j \<le> vs ! i) \<and> (\<forall>j<i. vs ! j < vs ! i))"

definition first_least :: "util list \<Rightarrow> nat \<Rightarrow> bool" where
  "first_least vs i = (i < length vs \<and> (\<forall>j<length vs. vs ! i \<le> vs ! j) \<and> (\<forall>j<i. vs ! i < vs ! j))"

text \<open>
  The choice a loop makes among the values of the children, written as a fold.
\<close>

definition pick_max :: "move option \<times> util \<Rightarrow> (move \<times> util) list \<Rightarrow> move option \<times> util" where
  "pick_max best xs = foldl (\<lambda>best x. if snd x > snd best then (Some (fst x), snd x) else best) best xs"

definition pick_min :: "move option \<times> util \<Rightarrow> (move \<times> util) list \<Rightarrow> move option \<times> util" where
  "pick_min best xs = foldl (\<lambda>best x. if snd x < snd best then (Some (fst x), snd x) else best) best xs"

text \<open>
  The relation between the value \<^term>\<open>v\<close> of a node and what alpha-beta returns for it
  with the window \<^term>\<open>(alpha, beta)\<close>: exact inside the window, a bound on the right
  side outside.
\<close>

definition agrees :: "util \<Rightarrow> util \<Rightarrow> util \<Rightarrow> util \<Rightarrow> bool" where
  "agrees alpha beta v ab =
     ((ab \<le> alpha \<longrightarrow> v \<le> ab) \<and> (alpha < ab \<and> ab < beta \<longrightarrow> ab = v) \<and> (beta \<le> ab \<longrightarrow> ab \<le> v))"

definition value_of :: "node_result option \<Rightarrow> util" where
  "value_of x = snd (fst (the x))"

text \<open>
  Games in which every legal move adds exactly one disc to a well-formed board.  In such a
  game a board occurs at one depth of a search only.  The reference value of a board is the
  value the node function without caching computes for it at that depth; a cache is sound
  when it holds reference values only.
\<close>

definition adds_one_disc :: "othello_shared \<Rightarrow> (board \<Rightarrow> bool) \<Rightarrow> (board \<Rightarrow> nat) \<Rightarrow> bool" where
  "adds_one_disc lib ok discs =
     (\<forall>board color move. ok board \<and> move \<in> set (get_possible_moves lib board color) \<longrightarrow>
        ok (play_move lib board color (fst move) (snd move)) \<and>
        discs (play_move lib board color (fst move) (snd move)) = Suc (discs board))"

definition reference ::
  "othello_shared \<Rightarrow> (board \<Rightarrow> nat) \<Rightarrow> nat \<Rightarrow> int \<Rightarrow> nat \<Rightarrow> int \<Rightarrow> board \<Rightarrow> node_result option" where
  "reference lib discs K1 K2 P col b =
     (if even (discs b + P)
      then minimax_max_node lib (K1 - discs b) Map.empty b col (K2 - int (discs b)) 0
      else minimax_min_node lib (K1 - discs b) Map.empty b col (K2 - int (discs b)) 0)"

definition cache_sound ::
  "othello_shared \<Rightarrow> (board \<Rightarrow> bool) \<Rightarrow> (board \<Rightarrow> nat) \<Rightarrow> nat \<Rightarrow> int \<Rightarrow> nat \<Rightarrow> int \<Rightarrow> cache \<Rightarrow> bool" where
  "cache_sound lib ok discs K1 K2 P col c =
     (\<forall>b v. c b = Some v \<longrightarrow>
        ok b \<and> discs b \<le> K1 \<and> map_option (\<lambda>r. snd (fst r)) (reference lib discs K1 K2 P col b) = Some v)"

definition same_outcome :: "(cache \<Rightarrow> bool) \<Rightarrow> bool \<Rightarrow> node_result option \<Rightarrow> node_result option \<Rightarrow> bool" where
  "same_outcome sound fresh cached plain =
     (case cached of
        None \<Rightarrow> plain = None
      | Some r \<Rightarrow> sound (snd r) \<and>
          (\<exists>r0. plain = Some r0 \<and> snd (fst r) = snd (fst r0) \<and> (fresh \<longrightarrow> fst r = fst r0)))"

text \<open>Well-formed boards of the game, their size and the number of discs on them.\<close>

definition square :: "board \<Rightarrow> bool" where
  "square board = (\<forall>row\<in>set board. length row = length board)"

definition board_of_size :: "nat \<Rightarrow> board \<Rightarrow> bool" where
  "board_of_size n board = (square board \<and> length board = n)"

definition capacity :: "(board \<Rightarrow> bool) \<Rightarrow> (board \<Rightarrow> nat) \<Rightarrow> nat \<Rightarrow> bool" where
  "capacity ok discs cap = (\<forall>b. ok b \<longrightarrow> discs b \<le> cap)"

definition disc_weight :: "int \<Rightarrow> nat" where
  "disc_weight e = (if e = 0 then 0 else 1)"

definition disc_count :: "board \<Rightarrow> nat" where
  "disc_count board = sum_list (map (\<lambda>row. sum_list (map disc_weight row)) board)"

text \<open>
  The components of the heuristic in the words of the specification: the squares of a
  board, the pieces of a colour with an empty neighbour among the up to eight adjacent
  squares, the corners a colour holds, the number of moves of a colour, and the exact ratio
  \<^verbatim>\<open>100 * (a - b) / (a + b)\<close>, which is 0 when the denominator is.
\<close>

definition on_board :: "board \<Rightarrow> int \<times> int \<Rightarrow> bool" where
  "on_board board p = (0 \<le> fst p \<and> fst p < int (length board) \<and> 0 \<le> snd p \<and> snd p < int (length board))"

definition piece_at :: "board \<Rightarrow> int \<times> int \<Rightarrow> int" where
  "piece_at board p = board ! nat (fst p) ! nat (snd p)"

definition grid :: "board \<Rightarrow> (int \<times> int) list" where
  "grid board = concat (map (\<lambda>i. map (\<lambda>j. (i, j)) [0..int (length board) - 1]) [0..int (length board) - 1])"

definition empty_neighbour :: "board \<Rightarrow> int \<times> int \<Rightarrow> bool" where
  "empty_neighbour board p =
     (\<exists>q\<in>set (grid board). q \<noteq> p \<and> \<bar>fst q - fst p\<bar> \<le> 1 \<and> \<bar>snd q - snd p\<bar> \<le> 1 \<and> piece_at board q = 0)"

definition potential :: "board \<Rightarrow> int \<Rightarrow> nat" where
  "potential board color = card {p \<in> set (grid board). piece_at board p = color \<and> empty_neighbour board p}"

definition corner_squares :: "board \<Rightarrow> (int \<times> int) set" where
  "corner_squares board =
     (let n = int (length board) in {(0, 0), (0, n - 1), (n - 1, 0), (n - 1, n - 1)})"

definition corner_count :: "board \<Rightarrow> int \<Rightarrow> nat" where
  "corner_count board color = card {p \<in> corner_squares board. piece_at board p = color}"

definition mobility :: "othello_shared \<Rightarrow> board \<Rightarrow> int \<Rightarrow> nat" where
  "mobility lib board color = length (get_possible_moves lib board color)"

definition ratio :: "nat \<Rightarrow> nat \<Rightarrow> real" where
  "ratio a b = (if a + b = 0 then 0 else 100 * ((real a - real b) / (real a + real b)))"

text \<open>
  The same ratio in the arithmetic of the code: the quotient is rounded to a float, and so
  is its product with 100.  A component is in order when it is 0 for a zero denominator,
  lies between -100 and 100, and is within \<^verbatim>\<open>41 / 2^51\<close> of the exact ratio.
\<close>

definition component :: "nat \<Rightarrow> nat \<Rightarrow> real" where
  "component a b =
     (if a + b = 0 then 0 else float_mul 100 (float_div (int a - int b) (int a + int b)))"

definition component_ok :: "nat \<Rightarrow> nat \<Rightarrow> bool" where
  "component_ok a b =
     ((a + b = 0 \<longrightarrow> component a b = 0) \<and> - 100 \<le> component a b \<and> component a b \<le> 100 \<and>
      \<bar>component a b - ratio a b\<bar> \<le> 41 / 2 ^ 51)"

definition corner_list :: "board \<Rightarrow> (int \<times> int) list" where
  "corner_list board =
     (let n = int (length board) in [(0, 0), (0, n - 1), (n - 1, 0), (n - 1, n - 1)])"

section \<open>Unfolding the node functions\<close>

lemma minimax_min_node_unfold:
  "minimax_min_node lib (Suc f) c b col lm ca =
     (case lookup ca c b of
        Some v \<Rightarrow> Some ((None, v), c)
      | None \<Rightarrow>
          if get_possible_moves lib b (other col) = [] \<or> lm = 0
          then Some ((None, Fin (compute_utility lib b col)), store ca c b (Fin (compute_utility lib b col)))
          else map_option (finish ca b)
                 (minimax_min_loop lib f c b col lm ca (other col) (get_possible_moves lib b (other col)) (None, PosInf)))"
  by (simp add: lookup_def store_def other_def finish_def Let_def split: option.splits prod.splits)

lemma minimax_max_node_unfold:
  "minimax_max_node lib (Suc f) c b col lm ca =
     (case lookup ca c b of
        Some v \<Rightarrow> Some ((None, v), c)
      | None \<Rightarrow>
          if get_possible_moves lib b col = [] \<or> lm = 0
          then Some ((None, Fin (compute_utility lib b col)), store ca c b (Fin (compute_utility lib b col)))
          else map_option (finish ca b)
                 (minimax_max_loop lib f c b col lm ca (get_possible_moves lib b col) (None, NegInf)))"
  by (simp add: lookup_def store_def finish_def Let_def split: option.splits prod.splits)

lemma minimax_min_loop_unfold:
  "minimax_min_loop lib f c b col lm ca opp (m # ms) best =
     (case minimax_max_node lib f c (play_move lib b opp (fst m) (snd m)) col (lm - 1) ca of
        None \<Rightarrow> None
      | Some r \<Rightarrow> minimax_min_loop lib f (snd r) b col lm ca opp ms
                    (if snd (fst r) < snd best then (Some m, snd (fst r)) else best))"
  by (simp add: Let_def split: option.splits prod.splits)

lemma minimax_max_loop_unfold:
  "minimax_max_loop lib f c b col lm ca (m # ms) best =
     (case minimax_min_node lib f c (play_move lib b col (fst m) (snd m)) col (lm - 1) ca of
        None \<Rightarrow> None
      | Some r \<Rightarrow> minimax_max_loop lib f (snd r) b col lm ca ms
                    (if snd (fst r) > snd best then (Some m, snd (fst r)) else best))"
  by (simp add: Let_def split: option.splits prod.splits)

lemma alphabeta_min_node_unfold:
  "alphabeta_min_node lib (Suc f) c b col alpha beta lm ca ord =
     (case lookup ca c b of
        Some v \<Rightarrow> Some ((None, v), c)
      | None \<Rightarrow>
          if get_possible_moves lib b (other col) = [] \<or> lm = 0
          then Some ((None, Fin (compute_utility lib b col)), store ca c b (Fin (compute_utility lib b col)))
          else map_option (finish ca b)
                 (alphabeta_min_loop lib f c col alpha beta lm ca ord (min_successors lib b col ord) (None, PosInf)))"
  by (simp add: lookup_def store_def other_def finish_def min_successors_def Let_def
           split: option.splits prod.splits)

lemma alphabeta_max_node_unfold:
  "alphabeta_max_node lib (Suc f) c b col alpha beta lm ca ord =
     (case lookup ca c b of
        Some v \<Rightarrow> Some ((None, v), c)
      | None \<Rightarrow>
          if get_possible_moves lib b col = [] \<or> lm = 0
          then Some ((None, Fin (compute_utility lib b col)), store ca c b (Fin (compute_utility lib b col)))
          else map_option (finish ca b)
                 (alphabeta_max_loop lib f c col alpha beta lm ca ord (max_successors lib b col ord) (None, NegInf)))"
  by (simp add: lookup_def store_def finish_def max_successors_def Let_def
           split: option.splits prod.splits)

lemma alphabeta_min_loop_unfold:
  "alphabeta_min_loop lib f c col alpha beta lm ca ord (s # ss) best =
     (case alphabeta_max_node lib f c (fst s) col alpha beta (lm - 1) ca ord of
        None \<Rightarrow> None
      | Some r \<Rightarrow>
          let best' = (if snd (fst r) < snd best then (Some (snd s), snd (fst r)) else best)
          in if snd best' \<le> alpha then Some (best', snd r)
             else alphabeta_min_loop lib f (snd r) col alpha (min beta (snd best')) lm ca ord ss best')"
  by (simp add: Let_def split: option.splits prod.splits)

lemma alphabeta_max_loop_unfold:
  "alphabeta_max_loop lib f c col alpha beta lm ca ord (s # ss) best =
     (case alphabeta_min_node lib f c (fst s) col alpha beta (lm - 1) ca ord of
        None \<Rightarrow> None
      | Some r \<Rightarrow>
          let best' = (if snd (fst r) > snd best then (Some (snd s), snd (fst r)) else best)
          in if snd best' \<ge> beta then Some (best', snd r)
             else alphabeta_max_loop lib f (snd r) col (max alpha (snd best')) beta lm ca ord ss best')"
  by (simp add: Let_def split: option.splits prod.splits)

declare minimax_min_node.simps(2) [simp del]
declare minimax_max_node.simps(2) [simp del]
declare minimax_min_loop.simps(2) [simp del]
declare minimax_max_loop.simps(2) [simp del]
declare alphabeta_min_node.simps(2) [simp del]
declare alphabeta_max_node.simps(2) [simp del]
declare alphabeta_min_loop.simps(2) [simp del]
declare alphabeta_max_loop.simps(2) [simp del]

section \<open>Case analysis of the minimax functions\<close>

lemma minimax_min_node_SomeE:
  assumes "minimax_min_node lib (Suc f) c b col lm ca = Some r"
  obtains (hit) v where "lookup ca c b = Some v" "r = ((None, v), c)"
  | (leaf) "lookup ca c b = None" "get_possible_moves lib b (other col) = [] \<or> lm = 0"
      "r = ((None, Fin (compute_utility lib b col)), store ca c b (Fin (compute_utility lib b col)))"
  | (inner) x where "lookup ca c b = None" "get_possible_moves lib b (other col) \<noteq> []" "lm \<noteq> 0"
      "minimax_min_loop lib f c b col lm ca (other col) (get_possible_moves lib b (other col)) (None, PosInf) = Some x"
      "r = finish ca b x"
  using assms unfolding minimax_min_node_unfold
  by (auto split: option.splits if_splits)

lemma minimax_max_node_SomeE:
  assumes "minimax_max_node lib (Suc f) c b col lm ca = Some r"
  obtains (hit) v where "lookup ca c b = Some v" "r = ((None, v), c)"
  | (leaf) "lookup ca c b = None" "get_possible_moves lib b col = [] \<or> lm = 0"
      "r = ((None, Fin (compute_utility lib b col)), store ca c b (Fin (compute_utility lib b col)))"
  | (inner) x where "lookup ca c b = None" "get_possible_moves lib b col \<noteq> []" "lm \<noteq> 0"
      "minimax_max_loop lib f c b col lm ca (get_possible_moves lib b col) (None, NegInf) = Some x"
      "r = finish ca b x"
  using assms unfolding minimax_max_node_unfold
  by (auto split: option.splits if_splits)

lemma minimax_min_loop_Cons:
  assumes "minimax_max_node lib f c (play_move lib b opp (fst m) (snd m)) col (lm - 1) ca = Some r1"
  shows "minimax_min_loop lib f c b col lm ca opp (m # ms) best =
           minimax_min_loop lib f (snd r1) b col lm ca opp ms (min_step m r1 best)"
  unfolding minimax_min_loop_unfold min_step_def using assms by simp

lemma minimax_max_loop_Cons:
  assumes "minimax_min_node lib f c (play_move lib b col (fst m) (snd m)) col (lm - 1) ca = Some r1"
  shows "minimax_max_loop lib f c b col lm ca (m # ms) best =
           minimax_max_loop lib f (snd r1) b col lm ca ms (max_step m r1 best)"
  unfolding minimax_max_loop_unfold max_step_def using assms by simp

lemma minimax_min_loop_ConsE:
  assumes "minimax_min_loop lib f c b col lm ca opp (m # ms) best = Some r"
  obtains r1 where
    "minimax_max_node lib f c (play_move lib b opp (fst m) (snd m)) col (lm - 1) ca = Some r1"
    "minimax_min_loop lib f (snd r1) b col lm ca opp ms (min_step m r1 best) = Some r"
  using assms unfolding minimax_min_loop_unfold min_step_def
  by (cases "minimax_max_node lib f c (play_move lib b opp (fst m) (snd m)) col (lm - 1) ca") simp_all

lemma minimax_max_loop_ConsE:
  assumes "minimax_max_loop lib f c b col lm ca (m # ms) best = Some r"
  obtains r1 where
    "minimax_min_node lib f c (play_move lib b col (fst m) (snd m)) col (lm - 1) ca = Some r1"
    "minimax_max_loop lib f (snd r1) b col lm ca ms (max_step m r1 best) = Some r"
  using assms unfolding minimax_max_loop_unfold max_step_def
  by (cases "minimax_min_node lib f c (play_move lib b col (fst m) (snd m)) col (lm - 1) ca") simp_all

subsection \<open>Bounded depth: the search returns\<close>

lemma minimax_min_loop_returns:
  assumes "\<forall>c b. minimax_max_node lib f c b col (lm - 1) ca \<noteq> None"
  shows "minimax_min_loop lib f c b col lm ca opp ms best \<noteq> None"
proof (induction ms arbitrary: c best)
  case Nil
  show ?case by simp
next
  case (Cons m ms)
  from assms obtain r1 where
    "minimax_max_node lib f c (play_move lib b opp (fst m) (snd m)) col (lm - 1) ca = Some r1"
    by blast
  with Cons.IH show ?case
    by (simp add: minimax_min_loop_Cons del: not_None_eq)
qed

lemma minimax_max_loop_returns:
  assumes "\<forall>c b. minimax_min_node lib f c b col (lm - 1) ca \<noteq> None"
  shows "minimax_max_loop lib f c b col lm ca ms best \<noteq> None"
proof (induction ms arbitrary: c best)
  case Nil
  show ?case by simp
next
  case (Cons m ms)
  from assms obtain r1 where
    "minimax_min_node lib f c (play_move lib b col (fst m) (snd m)) col (lm - 1) ca = Some r1"
    by blast
  with Cons.IH show ?case
    by (simp add: minimax_max_loop_Cons del: not_None_eq)
qed

lemma minimax_returns:
  "0 \<le> lm \<Longrightarrow> nat lm < f \<Longrightarrow>
     minimax_min_node lib f c b col lm ca \<noteq> None \<and>
     minimax_max_node lib f c b col lm ca \<noteq> None"
proof (induction f arbitrary: lm c b)
  case 0
  then show ?case by simp
next
  case (Suc f)
  show ?case
  proof (cases "lm = 0")
    case True
    then show ?thesis
      unfolding minimax_min_node_unfold minimax_max_node_unfold
      by (simp del: not_None_eq split: option.splits)
  next
    case False
    with Suc.prems have "0 \<le> lm - 1" "nat (lm - 1) < f" by linarith+
    from Suc.IH[OF this]
    have mn: "\<forall>c b. minimax_min_node lib f c b col (lm - 1) ca \<noteq> None"
      and mx: "\<forall>c b. minimax_max_node lib f c b col (lm - 1) ca \<noteq> None"
      by blast+
    from minimax_min_loop_returns[OF mx] obtain x where
      X: "minimax_min_loop lib f c b col lm ca (other col) (get_possible_moves lib b (other col)) (None, PosInf) = Some x"
      by blast
    from minimax_max_loop_returns[OF mn] obtain y where
      Y: "minimax_max_loop lib f c b col lm ca (get_possible_moves lib b col) (None, NegInf) = Some y"
      by blast
    show ?thesis
      unfolding minimax_min_node_unfold minimax_max_node_unfold
      by (simp add: X Y del: not_None_eq split: option.splits)
  qed
qed

subsection \<open>More fuel does not change a result (minimax)\<close>

lemma minimax_min_loop_mono:
  assumes IH: "\<forall>c b col lm ca r. minimax_max_node lib f c b col lm ca = Some r
                 \<longrightarrow> minimax_max_node lib f' c b col lm ca = Some r"
  shows "minimax_min_loop lib f c b col lm ca opp ms best = Some r
         \<Longrightarrow> minimax_min_loop lib f' c b col lm ca opp ms best = Some r"
proof (induction ms arbitrary: c best)
  case Nil
  then show ?case by simp
next
  case (Cons m ms)
  from Cons.prems obtain r1 where
    ch: "minimax_max_node lib f c (play_move lib b opp (fst m) (snd m)) col (lm - 1) ca = Some r1"
    and rest: "minimax_min_loop lib f (snd r1) b col lm ca opp ms (min_step m r1 best) = Some r"
    by (rule minimax_min_loop_ConsE)
  show ?case
    using IH[rule_format, OF ch] Cons.IH[OF rest] by (simp add: minimax_min_loop_Cons)
qed

lemma minimax_max_loop_mono:
  assumes IH: "\<forall>c b col lm ca r. minimax_min_node lib f c b col lm ca = Some r
                 \<longrightarrow> minimax_min_node lib f' c b col lm ca = Some r"
  shows "minimax_max_loop lib f c b col lm ca ms best = Some r
         \<Longrightarrow> minimax_max_loop lib f' c b col lm ca ms best = Some r"
proof (induction ms arbitrary: c best)
  case Nil
  then show ?case by simp
next
  case (Cons m ms)
  from Cons.prems obtain r1 where
    ch: "minimax_min_node lib f c (play_move lib b col (fst m) (snd m)) col (lm - 1) ca = Some r1"
    and rest: "minimax_max_loop lib f (snd r1) b col lm ca ms (max_step m r1 best) = Some r"
    by (rule minimax_max_loop_ConsE)
  show ?case
    using IH[rule_format, OF ch] Cons.IH[OF rest] by (simp add: minimax_max_loop_Cons)
qed

lemma minimax_node_mono:
  "(minimax_min_node lib f c b col lm ca = Some r \<longrightarrow> minimax_min_node lib (f + k) c b col lm ca = Some r) \<and>
   (minimax_max_node lib f c b col lm ca = Some r \<longrightarrow> minimax_max_node lib (f + k) c b col lm ca = Some r)"
proof (induction f arbitrary: c b col lm ca r)
  case 0
  then show ?case by simp
next
  case (Suc f)
  have mx: "\<forall>c b col lm ca r. minimax_max_node lib f c b col lm ca = Some r
                 \<longrightarrow> minimax_max_node lib (f + k) c b col lm ca = Some r"
    using Suc.IH by blast
  have mn: "\<forall>c b col lm ca r. minimax_min_node lib f c b col lm ca = Some r
                 \<longrightarrow> minimax_min_node lib (f + k) c b col lm ca = Some r"
    using Suc.IH by blast
  note l1 = minimax_min_loop_mono[OF mx]
  note l2 = minimax_max_loop_mono[OF mn]
  have A: "minimax_min_node lib (Suc f + k) c b col lm ca = Some r"
    if "minimax_min_node lib (Suc f) c b col lm ca = Some r"
    using that
  proof (cases rule: minimax_min_node_SomeE)
    case (inner x)
    with l1[OF inner(4)] show ?thesis
      unfolding add_Suc minimax_min_node_unfold by simp
  qed (simp_all add: minimax_min_node_unfold del: minimax_min_node.simps)
  have B: "minimax_max_node lib (Suc f + k) c b col lm ca = Some r"
    if "minimax_max_node lib (Suc f) c b col lm ca = Some r"
    using that
  proof (cases rule: minimax_max_node_SomeE)
    case (inner x)
    with l2[OF inner(4)] show ?thesis
      unfolding add_Suc minimax_max_node_unfold by simp
  qed (simp_all add: minimax_max_node_unfold del: minimax_max_node.simps)
  from A B show ?case by blast
qed

section \<open>Case analysis of the alpha-beta functions\<close>

lemma alphabeta_min_node_SomeE:
  assumes "alphabeta_min_node lib (Suc f) c b col alpha beta lm ca ord = Some r"
  obtains (hit) v where "lookup ca c b = Some v" "r = ((None, v), c)"
  | (leaf) "lookup ca c b = None" "get_possible_moves lib b (other col) = [] \<or> lm = 0"
      "r = ((None, Fin (compute_utility lib b col)), store ca c b (Fin (compute_utility lib b col)))"
  | (inner) x where "lookup ca c b = None" "get_possible_moves lib b (other col) \<noteq> []" "lm \<noteq> 0"
      "alphabeta_min_loop lib f c col alpha beta lm ca ord (min_successors lib b col ord) (None, PosInf) = Some x"
      "r = finish ca b x"
  using assms unfolding alphabeta_min_node_unfold
  by (auto split: option.splits if_splits)

lemma alphabeta_max_node_SomeE:
  assumes "alphabeta_max_node lib (Suc f) c b col alpha beta lm ca ord = Some r"
  obtains (hit) v where "lookup ca c b = Some v" "r = ((None, v), c)"
  | (leaf) "lookup ca c b = None" "get_possible_moves lib b col = [] \<or> lm = 0"
      "r = ((None, Fin (compute_utility lib b col)), store ca c b (Fin (compute_utility lib b col)))"
  | (inner) x where "lookup ca c b = None" "get_possible_moves lib b col \<noteq> []" "lm \<noteq> 0"
      "alphabeta_max_loop lib f c col alpha beta lm ca ord (max_successors lib b col ord) (None, NegInf) = Some x"
      "r = finish ca b x"
  using assms unfolding alphabeta_max_node_unfold
  by (auto split: option.splits if_splits)

lemma alphabeta_min_loop_ConsE:
  assumes "alphabeta_min_loop lib f c col alpha beta lm ca ord (s # ss) best = Some r"
  obtains (stop) r1 where
    "alphabeta_max_node lib f c (fst s) col alpha beta (lm - 1) ca ord = Some r1"
    "snd (min_step (snd s) r1 best) \<le> alpha" "r = (min_step (snd s) r1 best, snd r1)"
  | (continue) r1 where
    "alphabeta_max_node lib f c (fst s) col alpha beta (lm - 1) ca ord = Some r1"
    "\<not> snd (min_step (snd s) r1 best) \<le> alpha"
    "alphabeta_min_loop lib f (snd r1) col alpha (min beta (snd (min_step (snd s) r1 best))) lm ca ord ss
       (min_step (snd s) r1 best) = Some r"
  using assms unfolding alphabeta_min_loop_unfold min_step_def
  by (cases "alphabeta_max_node lib f c (fst s) col alpha beta (lm - 1) ca ord")
     (auto simp: Let_def split: if_splits)

lemma alphabeta_max_loop_ConsE:
  assumes "alphabeta_max_loop lib f c col alpha beta lm ca ord (s # ss) best = Some r"
  obtains (stop) r1 where
    "alphabeta_min_node lib f c (fst s) col alpha beta (lm - 1) ca ord = Some r1"
    "snd (max_step (snd s) r1 best) \<ge> beta" "r = (max_step (snd s) r1 best, snd r1)"
  | (continue) r1 where
    "alphabeta_min_node lib f c (fst s) col alpha beta (lm - 1) ca ord = Some r1"
    "\<not> snd (max_step (snd s) r1 best) \<ge> beta"
    "alphabeta_max_loop lib f (snd r1) col (max alpha (snd (max_step (snd s) r1 best))) beta lm ca ord ss
       (max_step (snd s) r1 best) = Some r"
  using assms unfolding alphabeta_max_loop_unfold max_step_def
  by (cases "alphabeta_min_node lib f c (fst s) col alpha beta (lm - 1) ca ord")
     (auto simp: Let_def split: if_splits)

lemma alphabeta_min_loop_Cons:
  assumes "alphabeta_max_node lib f c (fst s) col alpha beta (lm - 1) ca ord = Some r1"
  shows "alphabeta_min_loop lib f c col alpha beta lm ca ord (s # ss) best =
           (if snd (min_step (snd s) r1 best) \<le> alpha then Some (min_step (snd s) r1 best, snd r1)
            else alphabeta_min_loop lib f (snd r1) col alpha (min beta (snd (min_step (snd s) r1 best))) lm ca ord ss
                   (min_step (snd s) r1 best))"
  unfolding alphabeta_min_loop_unfold min_step_def using assms by (simp add: Let_def)

lemma alphabeta_max_loop_Cons:
  assumes "alphabeta_min_node lib f c (fst s) col alpha beta (lm - 1) ca ord = Some r1"
  shows "alphabeta_max_loop lib f c col alpha beta lm ca ord (s # ss) best =
           (if snd (max_step (snd s) r1 best) \<ge> beta then Some (max_step (snd s) r1 best, snd r1)
            else alphabeta_max_loop lib f (snd r1) col (max alpha (snd (max_step (snd s) r1 best))) beta lm ca ord ss
                   (max_step (snd s) r1 best))"
  unfolding alphabeta_max_loop_unfold max_step_def using assms by (simp add: Let_def)

subsection \<open>More fuel does not change a result\<close>

lemma alphabeta_min_loop_mono:
  assumes IH: "\<forall>c b alpha beta lm r. alphabeta_max_node lib f c b col alpha beta lm ca ord = Some r
                 \<longrightarrow> alphabeta_max_node lib f' c b col alpha beta lm ca ord = Some r"
  shows "alphabeta_min_loop lib f c col alpha beta lm ca ord ss best = Some r
         \<Longrightarrow> alphabeta_min_loop lib f' c col alpha beta lm ca ord ss best = Some r"
proof (induction ss arbitrary: c beta best)
  case Nil
  then show ?case by simp
next
  case (Cons s ss)
  from Cons.prems show ?case
  proof (cases rule: alphabeta_min_loop_ConsE)
    case (stop r1)
    from IH[rule_format, OF stop(1)] stop(2,3) show ?thesis
      by (simp add: alphabeta_min_loop_Cons)
  next
    case (continue r1)
    from IH[rule_format, OF continue(1)] continue(2) Cons.IH[OF continue(3)] show ?thesis
      by (simp add: alphabeta_min_loop_Cons)
  qed
qed

lemma alphabeta_max_loop_mono:
  assumes IH: "\<forall>c b alpha beta lm r. alphabeta_min_node lib f c b col alpha beta lm ca ord = Some r
                 \<longrightarrow> alphabeta_min_node lib f' c b col alpha beta lm ca ord = Some r"
  shows "alphabeta_max_loop lib f c col alpha beta lm ca ord ss best = Some r
         \<Longrightarrow> alphabeta_max_loop lib f' c col alpha beta lm ca ord ss best = Some r"
proof (induction ss arbitrary: c alpha best)
  case Nil
  then show ?case by simp
next
  case (Cons s ss)
  from Cons.prems show ?case
  proof (cases rule: alphabeta_max_loop_ConsE)
    case (stop r1)
    from IH[rule_format, OF stop(1)] stop(2,3) show ?thesis
      by (simp add: alphabeta_max_loop_Cons)
  next
    case (continue r1)
    from IH[rule_format, OF continue(1)] continue(2) Cons.IH[OF continue(3)] show ?thesis
      by (simp add: alphabeta_max_loop_Cons)
  qed
qed

lemma alphabeta_node_mono:
  "(alphabeta_min_node lib f c b col alpha beta lm ca ord = Some r
      \<longrightarrow> alphabeta_min_node lib (f + k) c b col alpha beta lm ca ord = Some r) \<and>
   (alphabeta_max_node lib f c b col alpha beta lm ca ord = Some r
      \<longrightarrow> alphabeta_max_node lib (f + k) c b col alpha beta lm ca ord = Some r)"
proof (induction f arbitrary: c b alpha beta lm r)
  case 0
  then show ?case by simp
next
  case (Suc f)
  have mx: "\<forall>c b alpha beta lm r. alphabeta_max_node lib f c b col alpha beta lm ca ord = Some r
                 \<longrightarrow> alphabeta_max_node lib (f + k) c b col alpha beta lm ca ord = Some r"
    using Suc.IH by blast
  have mn: "\<forall>c b alpha beta lm r. alphabeta_min_node lib f c b col alpha beta lm ca ord = Some r
                 \<longrightarrow> alphabeta_min_node lib (f + k) c b col alpha beta lm ca ord = Some r"
    using Suc.IH by blast
  note l1 = alphabeta_min_loop_mono[OF mx]
  note l2 = alphabeta_max_loop_mono[OF mn]
  have A: "alphabeta_min_node lib (Suc f + k) c b col alpha beta lm ca ord = Some r"
    if "alphabeta_min_node lib (Suc f) c b col alpha beta lm ca ord = Some r"
    using that
  proof (cases rule: alphabeta_min_node_SomeE)
    case (inner x)
    with l1[OF inner(4)] show ?thesis
      unfolding add_Suc alphabeta_min_node_unfold by simp
  qed (simp_all add: alphabeta_min_node_unfold del: alphabeta_min_node.simps)
  have B: "alphabeta_max_node lib (Suc f + k) c b col alpha beta lm ca ord = Some r"
    if "alphabeta_max_node lib (Suc f) c b col alpha beta lm ca ord = Some r"
    using that
  proof (cases rule: alphabeta_max_node_SomeE)
    case (inner x)
    with l2[OF inner(4)] show ?thesis
      unfolding add_Suc alphabeta_max_node_unfold by simp
  qed (simp_all add: alphabeta_max_node_unfold del: alphabeta_max_node.simps)
  from A B show ?case by blast
qed

subsection \<open>Bounded depth: alpha-beta returns\<close>

lemma alphabeta_min_loop_returns:
  assumes "\<forall>c b alpha beta. alphabeta_max_node lib f c b col alpha beta (lm - 1) ca ord \<noteq> None"
  shows "alphabeta_min_loop lib f c col alpha beta lm ca ord ss best \<noteq> None"
proof (induction ss arbitrary: c beta best)
  case Nil
  show ?case by simp
next
  case (Cons s ss)
  from assms obtain r1 where
    "alphabeta_max_node lib f c (fst s) col alpha beta (lm - 1) ca ord = Some r1"
    by blast
  with Cons.IH show ?case
    by (simp add: alphabeta_min_loop_Cons del: not_None_eq)
qed

lemma alphabeta_max_loop_returns:
  assumes "\<forall>c b alpha beta. alphabeta_min_node lib f c b col alpha beta (lm - 1) ca ord \<noteq> None"
  shows "alphabeta_max_loop lib f c col alpha beta lm ca ord ss best \<noteq> None"
proof (induction ss arbitrary: c alpha best)
  case Nil
  show ?case by simp
next
  case (Cons s ss)
  from assms obtain r1 where
    "alphabeta_min_node lib f c (fst s) col alpha beta (lm - 1) ca ord = Some r1"
    by blast
  with Cons.IH show ?case
    by (simp add: alphabeta_max_loop_Cons del: not_None_eq)
qed

lemma alphabeta_returns:
  "0 \<le> lm \<Longrightarrow> nat lm < f \<Longrightarrow>
     alphabeta_min_node lib f c b col alpha beta lm ca ord \<noteq> None \<and>
     alphabeta_max_node lib f c b col alpha beta lm ca ord \<noteq> None"
proof (induction f arbitrary: lm c b alpha beta)
  case 0
  then show ?case by simp
next
  case (Suc f)
  show ?case
  proof (cases "lm = 0")
    case True
    then show ?thesis
      unfolding alphabeta_min_node_unfold alphabeta_max_node_unfold
      by (simp del: not_None_eq split: option.splits)
  next
    case False
    with Suc.prems have "0 \<le> lm - 1" "nat (lm - 1) < f" by linarith+
    from Suc.IH[OF this]
    have mn: "\<forall>c b alpha beta. alphabeta_min_node lib f c b col alpha beta (lm - 1) ca ord \<noteq> None"
      and mx: "\<forall>c b alpha beta. alphabeta_max_node lib f c b col alpha beta (lm - 1) ca ord \<noteq> None"
      by blast+
    from alphabeta_min_loop_returns[OF mx] obtain x where
      X: "alphabeta_min_loop lib f c col alpha beta lm ca ord (min_successors lib b col ord) (None, PosInf) = Some x"
      by blast
    from alphabeta_max_loop_returns[OF mn] obtain y where
      Y: "alphabeta_max_loop lib f c col alpha beta lm ca ord (max_successors lib b col ord) (None, NegInf) = Some y"
      by blast
    show ?thesis
      unfolding alphabeta_min_node_unfold alphabeta_max_node_unfold
      by (simp add: X Y del: not_None_eq split: option.splits)
  qed
qed

subsection \<open>Every value is the utility of some board\<close>

lemma is_utility_leaf [simp]: "is_utility lib col (Fin (compute_utility lib b col))"
  by (auto simp: is_utility_def)

lemma is_utility_not_inf [simp]:
  "is_utility lib col v \<Longrightarrow> NegInf < v" "is_utility lib col v \<Longrightarrow> v < PosInf"
  by (auto simp: is_utility_def less_util_def)

lemma utility_cache_empty [simp]: "utility_cache lib col Map.empty"
  by (simp add: utility_cache_def)

lemma utility_cache_store:
  "utility_cache lib col c \<Longrightarrow> is_utility lib col v \<Longrightarrow> utility_cache lib col (store ca c b v)"
  by (simp add: utility_cache_def store_def)

lemma utility_cache_lookup:
  "utility_cache lib col c \<Longrightarrow> lookup ca c b = Some v \<Longrightarrow> is_utility lib col v"
  by (auto simp: utility_cache_def lookup_def split: if_splits)

lemma max_step_ok:
  "is_utility lib col (snd (fst r)) \<Longrightarrow> max_best_ok lib col best
     \<Longrightarrow> fst (max_step s r best) \<noteq> None \<and> is_utility lib col (snd (max_step s r best))"
  by (auto simp: max_step_def max_best_ok_def)

lemma min_step_ok:
  "is_utility lib col (snd (fst r)) \<Longrightarrow> min_best_ok lib col best
     \<Longrightarrow> fst (min_step s r best) \<noteq> None \<and> is_utility lib col (snd (min_step s r best))"
  by (auto simp: min_step_def min_best_ok_def)

lemma loop_ok_finish:
  "loop_ok lib col True best x \<Longrightarrow> node_ok lib col (finish ca b x) \<and> fst (fst (finish ca b x)) \<noteq> None"
  by (simp add: loop_ok_def node_ok_def finish_def utility_cache_store)

lemma minimax_max_loop_ok:
  assumes IH: "\<forall>c b lm r. utility_cache lib col c \<and> minimax_min_node lib f c b col lm ca = Some r
                 \<longrightarrow> node_ok lib col r"
  shows "utility_cache lib col c \<Longrightarrow> max_best_ok lib col best
         \<Longrightarrow> minimax_max_loop lib f c b col lm ca ms best = Some r
         \<Longrightarrow> loop_ok lib col (ms \<noteq> []) best r"
proof (induction ms arbitrary: c best)
  case Nil
  then show ?case by (auto simp: loop_ok_def)
next
  case (Cons m ms)
  from Cons.prems(3) obtain r1 where
    ch: "minimax_min_node lib f c (play_move lib b col (fst m) (snd m)) col (lm - 1) ca = Some r1"
    and rest: "minimax_max_loop lib f (snd r1) b col lm ca ms (max_step m r1 best) = Some r"
    by (rule minimax_max_loop_ConsE)
  from IH Cons.prems(1) ch have r1: "node_ok lib col r1" by blast
  then have st: "fst (max_step m r1 best) \<noteq> None \<and> is_utility lib col (snd (max_step m r1 best))"
    using Cons.prems(2) max_step_ok[of lib col r1 best m] unfolding node_ok_def by blast
  then have "max_best_ok lib col (max_step m r1 best)"
    unfolding max_best_ok_def by blast
  from Cons.IH[OF _ this rest] r1
  have "loop_ok lib col (ms \<noteq> []) (max_step m r1 best) r"
    by (simp add: node_ok_def)
  with st show ?case
    by (auto simp: loop_ok_def split: if_splits)
qed

lemma minimax_min_loop_ok:
  assumes IH: "\<forall>c b lm r. utility_cache lib col c \<and> minimax_max_node lib f c b col lm ca = Some r
                 \<longrightarrow> node_ok lib col r"
  shows "utility_cache lib col c \<Longrightarrow> min_best_ok lib col best
         \<Longrightarrow> minimax_min_loop lib f c b col lm ca opp ms best = Some r
         \<Longrightarrow> loop_ok lib col (ms \<noteq> []) best r"
proof (induction ms arbitrary: c best)
  case Nil
  then show ?case by (auto simp: loop_ok_def)
next
  case (Cons m ms)
  from Cons.prems(3) obtain r1 where
    ch: "minimax_max_node lib f c (play_move lib b opp (fst m) (snd m)) col (lm - 1) ca = Some r1"
    and rest: "minimax_min_loop lib f (snd r1) b col lm ca opp ms (min_step m r1 best) = Some r"
    by (rule minimax_min_loop_ConsE)
  from IH Cons.prems(1) ch have r1: "node_ok lib col r1" by blast
  then have st: "fst (min_step m r1 best) \<noteq> None \<and> is_utility lib col (snd (min_step m r1 best))"
    using Cons.prems(2) min_step_ok[of lib col r1 best m] unfolding node_ok_def by blast
  then have "min_best_ok lib col (min_step m r1 best)"
    unfolding min_best_ok_def by blast
  from Cons.IH[OF _ this rest] r1
  have "loop_ok lib col (ms \<noteq> []) (min_step m r1 best) r"
    by (simp add: node_ok_def)
  with st show ?case
    by (auto simp: loop_ok_def split: if_splits)
qed

lemma minimax_node_ok:
  "utility_cache lib col c \<Longrightarrow>
     (minimax_min_node lib f c b col lm ca = Some r \<longrightarrow> node_ok lib col r) \<and>
     (minimax_max_node lib f c b col lm ca = Some r \<longrightarrow> node_ok lib col r)"
proof (induction f arbitrary: c b lm r)
  case 0
  then show ?case by simp
next
  case (Suc f)
  have mx: "\<forall>c b lm r. utility_cache lib col c \<and> minimax_max_node lib f c b col lm ca = Some r
                 \<longrightarrow> node_ok lib col r"
    using Suc.IH by blast
  have mn: "\<forall>c b lm r. utility_cache lib col c \<and> minimax_min_node lib f c b col lm ca = Some r
                 \<longrightarrow> node_ok lib col r"
    using Suc.IH by blast
  have A: "node_ok lib col r" if "minimax_min_node lib (Suc f) c b col lm ca = Some r"
    using that
  proof (cases rule: minimax_min_node_SomeE)
    case (hit v)
    with Suc.prems show ?thesis by (auto simp: node_ok_def dest: utility_cache_lookup)
  next
    case leaf
    with Suc.prems show ?thesis by (simp add: node_ok_def utility_cache_store)
  next
    case (inner x)
    from minimax_min_loop_ok[OF mx Suc.prems _ inner(4)] inner(2)
    have "loop_ok lib col True (None, PosInf) x" by (simp add: min_best_ok_def)
    with inner(5) show ?thesis by (simp add: loop_ok_finish)
  qed
  have B: "node_ok lib col r" if "minimax_max_node lib (Suc f) c b col lm ca = Some r"
    using that
  proof (cases rule: minimax_max_node_SomeE)
    case (hit v)
    with Suc.prems show ?thesis by (auto simp: node_ok_def dest: utility_cache_lookup)
  next
    case leaf
    with Suc.prems show ?thesis by (simp add: node_ok_def utility_cache_store)
  next
    case (inner x)
    from minimax_max_loop_ok[OF mn Suc.prems _ inner(4)] inner(2)
    have "loop_ok lib col True (None, NegInf) x" by (simp add: max_best_ok_def)
    with inner(5) show ?thesis by (simp add: loop_ok_finish)
  qed
  from A B show ?case by blast
qed

lemma minimax_node_ok_all:
  "\<forall>c b lm r. utility_cache lib col c \<and> minimax_min_node lib f c b col lm ca = Some r \<longrightarrow> node_ok lib col r"
  "\<forall>c b lm r. utility_cache lib col c \<and> minimax_max_node lib f c b col lm ca = Some r \<longrightarrow> node_ok lib col r"
  using minimax_node_ok by blast+

lemma minimax_max_node_inner_move:
  assumes "utility_cache lib col c" "minimax_max_node lib (Suc f) c b col lm ca = Some r"
    "lookup ca c b = None" "get_possible_moves lib b col \<noteq> []" "lm \<noteq> 0"
  shows "fst (fst r) \<noteq> None"
  using assms(2)
proof (cases rule: minimax_max_node_SomeE)
  case (inner x)
  from minimax_max_loop_ok[OF minimax_node_ok_all(1) assms(1) _ inner(4)] inner(2)
  have "loop_ok lib col True (None, NegInf) x" by (simp add: max_best_ok_def)
  with inner(5) show ?thesis using loop_ok_finish by blast
qed (use assms in simp_all)

lemma minimax_min_node_inner_move:
  assumes "utility_cache lib col c" "minimax_min_node lib (Suc f) c b col lm ca = Some r"
    "lookup ca c b = None" "get_possible_moves lib b (other col) \<noteq> []" "lm \<noteq> 0"
  shows "fst (fst r) \<noteq> None"
  using assms(2)
proof (cases rule: minimax_min_node_SomeE)
  case (inner x)
  from minimax_min_loop_ok[OF minimax_node_ok_all(2) assms(1) _ inner(4)] inner(2)
  have "loop_ok lib col True (None, PosInf) x" by (simp add: min_best_ok_def)
  with inner(5) show ?thesis using loop_ok_finish by blast
qed (use assms in simp_all)

text \<open>In alpha-beta the loop may stop early; the result is then the current best.\<close>

lemma alphabeta_max_loop_ok:
  assumes IH: "\<forall>c b alpha beta lm r. utility_cache lib col c \<and>
                   alphabeta_min_node lib f c b col alpha beta lm ca ord = Some r
                 \<longrightarrow> node_ok lib col r"
  shows "utility_cache lib col c \<Longrightarrow> max_best_ok lib col best
         \<Longrightarrow> alphabeta_max_loop lib f c col alpha beta lm ca ord ss best = Some r
         \<Longrightarrow> loop_ok lib col (ss \<noteq> []) best r"
proof (induction ss arbitrary: c alpha best)
  case Nil
  then show ?case by (auto simp: loop_ok_def)
next
  case (Cons s ss)
  from Cons.prems(3) show ?case
  proof (cases rule: alphabeta_max_loop_ConsE)
    case (stop r1)
    from IH Cons.prems(1) stop(1) have r1: "node_ok lib col r1" by blast
    then have "fst (max_step (snd s) r1 best) \<noteq> None \<and> is_utility lib col (snd (max_step (snd s) r1 best))"
      using Cons.prems(2) max_step_ok[of lib col r1 best "snd s"] unfolding node_ok_def by blast
    with r1 stop(3) show ?thesis
      by (simp add: loop_ok_def node_ok_def del: not_None_eq)
  next
    case (continue r1)
    from IH Cons.prems(1) continue(1) have r1: "node_ok lib col r1" by blast
    then have st: "fst (max_step (snd s) r1 best) \<noteq> None \<and> is_utility lib col (snd (max_step (snd s) r1 best))"
      using Cons.prems(2) max_step_ok[of lib col r1 best "snd s"] unfolding node_ok_def by blast
    then have "max_best_ok lib col (max_step (snd s) r1 best)"
      unfolding max_best_ok_def by blast
    from Cons.IH[OF _ this continue(3)] r1
    have "loop_ok lib col (ss \<noteq> []) (max_step (snd s) r1 best) r"
      by (simp add: node_ok_def)
    with st show ?thesis
      by (auto simp: loop_ok_def split: if_splits)
  qed
qed

lemma alphabeta_min_loop_ok:
  assumes IH: "\<forall>c b alpha beta lm r. utility_cache lib col c \<and>
                   alphabeta_max_node lib f c b col alpha beta lm ca ord = Some r
                 \<longrightarrow> node_ok lib col r"
  shows "utility_cache lib col c \<Longrightarrow> min_best_ok lib col best
         \<Longrightarrow> alphabeta_min_loop lib f c col alpha beta lm ca ord ss best = Some r
         \<Longrightarrow> loop_ok lib col (ss \<noteq> []) best r"
proof (induction ss arbitrary: c beta best)
  case Nil
  then show ?case by (auto simp: loop_ok_def)
next
  case (Cons s ss)
  from Cons.prems(3) show ?case
  proof (cases rule: alphabeta_min_loop_ConsE)
    case (stop r1)
    from IH Cons.prems(1) stop(1) have r1: "node_ok lib col r1" by blast
    then have "fst (min_step (snd s) r1 best) \<noteq> None \<and> is_utility lib col (snd (min_step (snd s) r1 best))"
      using Cons.prems(2) min_step_ok[of lib col r1 best "snd s"] unfolding node_ok_def by blast
    with r1 stop(3) show ?thesis
      by (simp add: loop_ok_def node_ok_def del: not_None_eq)
  next
    case (continue r1)
    from IH Cons.prems(1) continue(1) have r1: "node_ok lib col r1" by blast
    then have st: "fst (min_step (snd s) r1 best) \<noteq> None \<and> is_utility lib col (snd (min_step (snd s) r1 best))"
      using Cons.prems(2) min_step_ok[of lib col r1 best "snd s"] unfolding node_ok_def by blast
    then have "min_best_ok lib col (min_step (snd s) r1 best)"
      unfolding min_best_ok_def by blast
    from Cons.IH[OF _ this continue(3)] r1
    have "loop_ok lib col (ss \<noteq> []) (min_step (snd s) r1 best) r"
      by (simp add: node_ok_def)
    with st show ?thesis
      by (auto simp: loop_ok_def split: if_splits)
  qed
qed

lemma sort_key_Nil_iff [simp]: "sort_key k xs = [] \<longleftrightarrow> xs = []"
  using length_sort[of k xs] by (metis length_0_conv)

lemma max_successors_Nil [simp]: "max_successors lib b col ord = [] \<longleftrightarrow> get_possible_moves lib b col = []"
  by (simp add: max_successors_def sort_descending_def Let_def)

lemma min_successors_Nil [simp]: "min_successors lib b col ord = [] \<longleftrightarrow> get_possible_moves lib b (other col) = []"
  by (simp add: min_successors_def sort_ascending_def Let_def)

lemma alphabeta_node_ok:
  "utility_cache lib col c \<Longrightarrow>
     (alphabeta_min_node lib f c b col alpha beta lm ca ord = Some r \<longrightarrow> node_ok lib col r) \<and>
     (alphabeta_max_node lib f c b col alpha beta lm ca ord = Some r \<longrightarrow> node_ok lib col r)"
proof (induction f arbitrary: c b alpha beta lm r)
  case 0
  then show ?case by simp
next
  case (Suc f)
  have mx: "\<forall>c b alpha beta lm r. utility_cache lib col c \<and>
              alphabeta_max_node lib f c b col alpha beta lm ca ord = Some r \<longrightarrow> node_ok lib col r"
    using Suc.IH by blast
  have mn: "\<forall>c b alpha beta lm r. utility_cache lib col c \<and>
              alphabeta_min_node lib f c b col alpha beta lm ca ord = Some r \<longrightarrow> node_ok lib col r"
    using Suc.IH by blast
  have A: "node_ok lib col r" if "alphabeta_min_node lib (Suc f) c b col alpha beta lm ca ord = Some r"
    using that
  proof (cases rule: alphabeta_min_node_SomeE)
    case (hit v)
    with Suc.prems show ?thesis by (auto simp: node_ok_def dest: utility_cache_lookup)
  next
    case leaf
    with Suc.prems show ?thesis by (simp add: node_ok_def utility_cache_store)
  next
    case (inner x)
    from alphabeta_min_loop_ok[OF mx Suc.prems _ inner(4)] inner(2)
    have "loop_ok lib col True (None, PosInf) x" by (simp add: min_best_ok_def)
    with inner(5) show ?thesis by (simp add: loop_ok_finish)
  qed
  have B: "node_ok lib col r" if "alphabeta_max_node lib (Suc f) c b col alpha beta lm ca ord = Some r"
    using that
  proof (cases rule: alphabeta_max_node_SomeE)
    case (hit v)
    with Suc.prems show ?thesis by (auto simp: node_ok_def dest: utility_cache_lookup)
  next
    case leaf
    with Suc.prems show ?thesis by (simp add: node_ok_def utility_cache_store)
  next
    case (inner x)
    from alphabeta_max_loop_ok[OF mn Suc.prems _ inner(4)] inner(2)
    have "loop_ok lib col True (None, NegInf) x" by (simp add: max_best_ok_def)
    with inner(5) show ?thesis by (simp add: loop_ok_finish)
  qed
  from A B show ?case by blast
qed

lemma lookup_empty [simp]: "lookup ca Map.empty b = None"
  by (simp add: lookup_def)

lemma select_move_minimax_root:
  "map_option fst (select_move_minimax lib fuel g board color limit caching) =
     map_option fst (minimax_root lib fuel board color limit caching)"
  by (simp add: select_move_minimax_def minimax_root_def split: option.splits prod.splits)

lemma select_move_alphabeta_root:
  "map_option fst (select_move_alphabeta lib fuel g board color limit caching ord) =
     map_option fst (alphabeta_root lib fuel board color limit caching ord)"
  by (simp add: select_move_alphabeta_def alphabeta_root_def split: option.splits prod.splits)

subsection \<open>Without caching the cache is neither read nor written\<close>

lemma with_cache_simps [simp]:
  "with_cache c None = None"
  "with_cache c (Some r) = Some (fst r, c)"
  by (simp_all add: with_cache_def)

lemma min_step_fst: "min_step m (fst r, c) best = min_step m r best"
  by (simp add: min_step_def)

lemma max_step_fst: "max_step m (fst r, c) best = max_step m r best"
  by (simp add: max_step_def)

lemma lookup_off [simp]: "lookup 0 c b = None"
  by (simp add: lookup_def)

lemma store_off [simp]: "store 0 c b v = c"
  by (simp add: store_def)

lemma finish_off [simp]: "finish 0 b r = r"
  by (simp add: finish_def)

lemma minimax_min_loop_nocache:
  assumes IH: "\<forall>c b lm. minimax_max_node lib f c b col lm 0
                 = with_cache c (minimax_max_node lib f Map.empty b col lm 0)"
  shows "minimax_min_loop lib f c b col lm 0 opp ms best
           = with_cache c (minimax_min_loop lib f Map.empty b col lm 0 opp ms best)"
proof (induction ms arbitrary: best)
  case Nil
  show ?case by simp
next
  case (Cons m ms)
  show ?case
  proof (cases "minimax_max_node lib f Map.empty (play_move lib b opp (fst m) (snd m)) col (lm - 1) 0")
    case None
    with IH[rule_format, of c "play_move lib b opp (fst m) (snd m)" "lm - 1"]
    show ?thesis by (simp add: minimax_min_loop_unfold)
  next
    case (Some r0)
    from IH[rule_format, of c "play_move lib b opp (fst m) (snd m)" "lm - 1"] Some
    have 1: "minimax_max_node lib f c (play_move lib b opp (fst m) (snd m)) col (lm - 1) 0 = Some (fst r0, c)"
      by simp
    from IH[rule_format, of Map.empty "play_move lib b opp (fst m) (snd m)" "lm - 1"] Some
    have 2: "snd r0 = Map.empty" by (cases r0) simp
    show ?thesis
      using Cons.IH[of "min_step m r0 best"] 2
      by (simp add: minimax_min_loop_Cons[OF 1] minimax_min_loop_Cons[OF Some] min_step_fst)
  qed
qed

lemma minimax_max_loop_nocache:
  assumes IH: "\<forall>c b lm. minimax_min_node lib f c b col lm 0
                 = with_cache c (minimax_min_node lib f Map.empty b col lm 0)"
  shows "minimax_max_loop lib f c b col lm 0 ms best
           = with_cache c (minimax_max_loop lib f Map.empty b col lm 0 ms best)"
proof (induction ms arbitrary: best)
  case Nil
  show ?case by simp
next
  case (Cons m ms)
  show ?case
  proof (cases "minimax_min_node lib f Map.empty (play_move lib b col (fst m) (snd m)) col (lm - 1) 0")
    case None
    with IH[rule_format, of c "play_move lib b col (fst m) (snd m)" "lm - 1"]
    show ?thesis by (simp add: minimax_max_loop_unfold)
  next
    case (Some r0)
    from IH[rule_format, of c "play_move lib b col (fst m) (snd m)" "lm - 1"] Some
    have 1: "minimax_min_node lib f c (play_move lib b col (fst m) (snd m)) col (lm - 1) 0 = Some (fst r0, c)"
      by simp
    from IH[rule_format, of Map.empty "play_move lib b col (fst m) (snd m)" "lm - 1"] Some
    have 2: "snd r0 = Map.empty" by (cases r0) simp
    show ?thesis
      using Cons.IH[of "max_step m r0 best"] 2
      by (simp add: minimax_max_loop_Cons[OF 1] minimax_max_loop_Cons[OF Some] max_step_fst)
  qed
qed

lemma minimax_nocache:
  "minimax_min_node lib f c b col lm 0 = with_cache c (minimax_min_node lib f Map.empty b col lm 0) \<and>
   minimax_max_node lib f c b col lm 0 = with_cache c (minimax_max_node lib f Map.empty b col lm 0)"
proof (induction f arbitrary: c b lm)
  case 0
  show ?case by simp
next
  case (Suc f)
  have mn: "\<forall>c b lm. minimax_min_node lib f c b col lm 0
                 = with_cache c (minimax_min_node lib f Map.empty b col lm 0)"
    and mx: "\<forall>c b lm. minimax_max_node lib f c b col lm 0
                 = with_cache c (minimax_max_node lib f Map.empty b col lm 0)"
    using Suc.IH by blast+
  show ?case
    unfolding minimax_min_node_unfold minimax_max_node_unfold
    using minimax_min_loop_nocache[OF mx, of c b lm] minimax_max_loop_nocache[OF mn, of c b lm]
    by (simp add: with_cache_def option.map_comp comp_def option.map_ident)
qed

lemma alphabeta_min_loop_nocache:
  assumes IH: "\<forall>c b alpha beta lm. alphabeta_max_node lib f c b col alpha beta lm 0 ord
                 = with_cache c (alphabeta_max_node lib f Map.empty b col alpha beta lm 0 ord)"
  shows "alphabeta_min_loop lib f c col alpha beta lm 0 ord ss best
           = with_cache c (alphabeta_min_loop lib f Map.empty col alpha beta lm 0 ord ss best)"
proof (induction ss arbitrary: beta best)
  case Nil
  show ?case by simp
next
  case (Cons s ss)
  show ?case
  proof (cases "alphabeta_max_node lib f Map.empty (fst s) col alpha beta (lm - 1) 0 ord")
    case None
    with IH[rule_format, of c "fst s" alpha beta "lm - 1"]
    show ?thesis by (simp add: alphabeta_min_loop_unfold)
  next
    case (Some r0)
    from IH[rule_format, of c "fst s" alpha beta "lm - 1"] Some
    have 1: "alphabeta_max_node lib f c (fst s) col alpha beta (lm - 1) 0 ord = Some (fst r0, c)"
      by simp
    from IH[rule_format, of Map.empty "fst s" alpha beta "lm - 1"] Some
    have 2: "snd r0 = Map.empty" by (cases r0) simp
    show ?thesis
      using Cons.IH[of "min beta (snd (min_step (snd s) r0 best))" "min_step (snd s) r0 best"] 2
      by (simp add: alphabeta_min_loop_Cons[OF 1] alphabeta_min_loop_Cons[OF Some] min_step_fst)
  qed
qed

lemma alphabeta_max_loop_nocache:
  assumes IH: "\<forall>c b alpha beta lm. alphabeta_min_node lib f c b col alpha beta lm 0 ord
                 = with_cache c (alphabeta_min_node lib f Map.empty b col alpha beta lm 0 ord)"
  shows "alphabeta_max_loop lib f c col alpha beta lm 0 ord ss best
           = with_cache c (alphabeta_max_loop lib f Map.empty col alpha beta lm 0 ord ss best)"
proof (induction ss arbitrary: alpha best)
  case Nil
  show ?case by simp
next
  case (Cons s ss)
  show ?case
  proof (cases "alphabeta_min_node lib f Map.empty (fst s) col alpha beta (lm - 1) 0 ord")
    case None
    with IH[rule_format, of c "fst s" alpha beta "lm - 1"]
    show ?thesis by (simp add: alphabeta_max_loop_unfold)
  next
    case (Some r0)
    from IH[rule_format, of c "fst s" alpha beta "lm - 1"] Some
    have 1: "alphabeta_min_node lib f c (fst s) col alpha beta (lm - 1) 0 ord = Some (fst r0, c)"
      by simp
    from IH[rule_format, of Map.empty "fst s" alpha beta "lm - 1"] Some
    have 2: "snd r0 = Map.empty" by (cases r0) simp
    show ?thesis
      using Cons.IH[of "max alpha (snd (max_step (snd s) r0 best))" "max_step (snd s) r0 best"] 2
      by (simp add: alphabeta_max_loop_Cons[OF 1] alphabeta_max_loop_Cons[OF Some] max_step_fst)
  qed
qed

lemma alphabeta_nocache:
  "alphabeta_min_node lib f c b col alpha beta lm 0 ord
     = with_cache c (alphabeta_min_node lib f Map.empty b col alpha beta lm 0 ord) \<and>
   alphabeta_max_node lib f c b col alpha beta lm 0 ord
     = with_cache c (alphabeta_max_node lib f Map.empty b col alpha beta lm 0 ord)"
proof (induction f arbitrary: c b alpha beta lm)
  case 0
  show ?case by simp
next
  case (Suc f)
  have mn: "\<forall>c b alpha beta lm. alphabeta_min_node lib f c b col alpha beta lm 0 ord
                 = with_cache c (alphabeta_min_node lib f Map.empty b col alpha beta lm 0 ord)"
    and mx: "\<forall>c b alpha beta lm. alphabeta_max_node lib f c b col alpha beta lm 0 ord
                 = with_cache c (alphabeta_max_node lib f Map.empty b col alpha beta lm 0 ord)"
    using Suc.IH by blast+
  show ?case
    unfolding alphabeta_min_node_unfold alphabeta_max_node_unfold
    using alphabeta_min_loop_nocache[OF mx, of c alpha beta lm]
          alphabeta_max_loop_nocache[OF mn, of c alpha beta lm]
    by (simp add: with_cache_def option.map_comp comp_def option.map_ident)
qed

lemma minimax_nocache_cache:
  "minimax_max_node lib f c b col lm 0 = Some r \<Longrightarrow> snd r = c"
  "minimax_min_node lib f c b col lm 0 = Some r \<Longrightarrow> snd r = c"
  using minimax_nocache[of lib f c b col lm] by (auto simp: with_cache_def)

lemma alphabeta_nocache_cache:
  "alphabeta_max_node lib f c b col alpha beta lm 0 ord = Some r \<Longrightarrow> snd r = c"
  "alphabeta_min_node lib f c b col alpha beta lm 0 ord = Some r \<Longrightarrow> snd r = c"
  using alphabeta_nocache[of lib f c b col alpha beta lm ord] by (auto simp: with_cache_def)

lemma first_greatestD:
  assumes "first_greatest (map snd xs) i"
  shows "i < length xs" "\<And>j. j < length xs \<Longrightarrow> snd (xs ! j) \<le> snd (xs ! i)"
    "\<And>j. j < i \<Longrightarrow> snd (xs ! j) < snd (xs ! i)"
  using assms by (auto simp: first_greatest_def)

lemma first_leastD:
  assumes "first_least (map snd xs) i"
  shows "i < length xs" "\<And>j. j < length xs \<Longrightarrow> snd (xs ! i) \<le> snd (xs ! j)"
    "\<And>j. j < i \<Longrightarrow> snd (xs ! i) < snd (xs ! j)"
  using assms by (auto simp: first_least_def)

lemma pick_max_first_greatest:
  "xs \<noteq> [] \<Longrightarrow> \<forall>x\<in>set xs. NegInf < snd x \<Longrightarrow>
     \<exists>i. first_greatest (map snd xs) i \<and> pick_max (None, NegInf) xs = (Some (fst (xs ! i)), snd (xs ! i))"
proof (induction xs rule: rev_induct)
  case Nil
  then show ?case by simp
next
  case (snoc x xs)
  show ?case
  proof (cases "xs = []")
    case True
    with snoc.prems show ?thesis
      by (auto simp: pick_max_def first_greatest_def)
  next
    case False
    with snoc obtain i where i: "first_greatest (map snd xs) i"
      and p: "pick_max (None, NegInf) xs = (Some (fst (xs ! i)), snd (xs ! i))"
      by auto
    from i have il: "i < length xs" by (simp add: first_greatest_def)
    show ?thesis
    proof (cases "snd x > snd (xs ! i)")
      case True
      have "first_greatest (map snd (xs @ [x])) (length xs)"
        unfolding first_greatest_def
      proof (intro conjI allI impI)
        show "length xs < length (map snd (xs @ [x]))" by simp
      next
        fix j assume "j < length (map snd (xs @ [x]))"
        then have "j < length xs \<or> j = length xs" by auto
        then show "map snd (xs @ [x]) ! j \<le> map snd (xs @ [x]) ! length xs"
        proof
          assume j: "j < length xs"
          have "snd (xs ! j) \<le> snd (xs ! i)" using first_greatestD(2)[OF i j] .
          with True j show ?thesis by (simp add: nth_append)
        next
          assume "j = length xs" then show ?thesis by simp
        qed
      next
        fix j assume j: "j < length xs"
        have "snd (xs ! j) \<le> snd (xs ! i)" using first_greatestD(2)[OF i j] .
        with True j show "map snd (xs @ [x]) ! j < map snd (xs @ [x]) ! length xs"
          by (simp add: nth_append)
      qed
      moreover from True p have "pick_max (None, NegInf) (xs @ [x]) = (Some (fst x), snd x)"
        by (simp add: pick_max_def)
      ultimately show ?thesis
        by (intro exI[of _ "length xs"]) simp
    next
      case False
      have "first_greatest (map snd (xs @ [x])) i"
        unfolding first_greatest_def
      proof (intro conjI allI impI)
        show "i < length (map snd (xs @ [x]))" using il by simp
      next
        fix j assume "j < length (map snd (xs @ [x]))"
        then have "j < length xs \<or> j = length xs" by auto
        then show "map snd (xs @ [x]) ! j \<le> map snd (xs @ [x]) ! i"
        proof
          assume j: "j < length xs"
          have "snd (xs ! j) \<le> snd (xs ! i)" using first_greatestD(2)[OF i j] .
          with il j show ?thesis by (simp add: nth_append)
        next
          assume "j = length xs" with False il show ?thesis by (simp add: nth_append)
        qed
      next
        fix j assume j: "j < i"
        have "snd (xs ! j) < snd (xs ! i)" using first_greatestD(3)[OF i j] .
        with il j show "map snd (xs @ [x]) ! j < map snd (xs @ [x]) ! i"
          by (simp add: nth_append)
      qed
      moreover from False p il have "pick_max (None, NegInf) (xs @ [x]) = (Some (fst ((xs @ [x]) ! i)), snd ((xs @ [x]) ! i))"
        by (simp add: pick_max_def nth_append)
      ultimately show ?thesis by blast
    qed
  qed
qed

lemma pick_min_first_least:
  "xs \<noteq> [] \<Longrightarrow> \<forall>x\<in>set xs. snd x < PosInf \<Longrightarrow>
     \<exists>i. first_least (map snd xs) i \<and> pick_min (None, PosInf) xs = (Some (fst (xs ! i)), snd (xs ! i))"
proof (induction xs rule: rev_induct)
  case Nil
  then show ?case by simp
next
  case (snoc x xs)
  show ?case
  proof (cases "xs = []")
    case True
    with snoc.prems show ?thesis
      by (auto simp: pick_min_def first_least_def)
  next
    case False
    with snoc obtain i where i: "first_least (map snd xs) i"
      and p: "pick_min (None, PosInf) xs = (Some (fst (xs ! i)), snd (xs ! i))"
      by auto
    from i have il: "i < length xs" by (simp add: first_least_def)
    show ?thesis
    proof (cases "snd x < snd (xs ! i)")
      case True
      have "first_least (map snd (xs @ [x])) (length xs)"
        unfolding first_least_def
      proof (intro conjI allI impI)
        show "length xs < length (map snd (xs @ [x]))" by simp
      next
        fix j assume "j < length (map snd (xs @ [x]))"
        then have "j < length xs \<or> j = length xs" by auto
        then show "map snd (xs @ [x]) ! length xs \<le> map snd (xs @ [x]) ! j"
        proof
          assume j: "j < length xs"
          have "snd (xs ! i) \<le> snd (xs ! j)" using first_leastD(2)[OF i j] .
          with True j show ?thesis by (simp add: nth_append)
        next
          assume "j = length xs" then show ?thesis by simp
        qed
      next
        fix j assume j: "j < length xs"
        have "snd (xs ! i) \<le> snd (xs ! j)" using first_leastD(2)[OF i j] .
        with True j show "map snd (xs @ [x]) ! length xs < map snd (xs @ [x]) ! j"
          by (simp add: nth_append)
      qed
      moreover from True p have "pick_min (None, PosInf) (xs @ [x]) = (Some (fst x), snd x)"
        by (simp add: pick_min_def)
      ultimately show ?thesis
        by (intro exI[of _ "length xs"]) simp
    next
      case False
      have "first_least (map snd (xs @ [x])) i"
        unfolding first_least_def
      proof (intro conjI allI impI)
        show "i < length (map snd (xs @ [x]))" using il by simp
      next
        fix j assume "j < length (map snd (xs @ [x]))"
        then have "j < length xs \<or> j = length xs" by auto
        then show "map snd (xs @ [x]) ! i \<le> map snd (xs @ [x]) ! j"
        proof
          assume j: "j < length xs"
          have "snd (xs ! i) \<le> snd (xs ! j)" using first_leastD(2)[OF i j] .
          with il j show ?thesis by (simp add: nth_append)
        next
          assume "j = length xs" with False il show ?thesis by (simp add: nth_append)
        qed
      next
        fix j assume j: "j < i"
        have "snd (xs ! i) < snd (xs ! j)" using first_leastD(3)[OF i j] .
        with il j show "map snd (xs @ [x]) ! i < map snd (xs @ [x]) ! j"
          by (simp add: nth_append)
      qed
      moreover from False p il have "pick_min (None, PosInf) (xs @ [x]) = (Some (fst ((xs @ [x]) ! i)), snd ((xs @ [x]) ! i))"
        by (simp add: pick_min_def nth_append)
      ultimately show ?thesis by blast
    qed
  qed
qed

lemma minimax_nocache_value:
  "minimax_max_node lib f c b col lm 0 = Some r \<Longrightarrow> is_utility lib col (snd (fst r))"
  "minimax_min_node lib f c b col lm 0 = Some r \<Longrightarrow> is_utility lib col (snd (fst r))"
proof -
  assume a: "minimax_max_node lib f c b col lm 0 = Some r"
  show "is_utility lib col (snd (fst r))"
  proof (cases "minimax_max_node lib f Map.empty b col lm 0")
    case None
    with a minimax_nocache[of lib f c b col lm] show ?thesis by simp
  next
    case (Some r0)
    with a minimax_nocache[of lib f c b col lm] have "fst r = fst r0" by auto
    moreover from minimax_node_ok[where lib=lib and col=col and c=Map.empty and f=f and b=b and lm=lm and ca=0 and r=r0, OF utility_cache_empty] Some
    have "node_ok lib col r0" by blast
    ultimately show ?thesis by (simp add: node_ok_def)
  qed
next
  assume a: "minimax_min_node lib f c b col lm 0 = Some r"
  show "is_utility lib col (snd (fst r))"
  proof (cases "minimax_min_node lib f Map.empty b col lm 0")
    case None
    with a minimax_nocache[of lib f c b col lm] show ?thesis by simp
  next
    case (Some r0)
    with a minimax_nocache[of lib f c b col lm] have "fst r = fst r0" by auto
    moreover from minimax_node_ok[where lib=lib and col=col and c=Map.empty and f=f and b=b and lm=lm and ca=0 and r=r0, OF utility_cache_empty] Some
    have "node_ok lib col r0" by blast
    ultimately show ?thesis by (simp add: node_ok_def)
  qed
qed

lemma pick_max_Cons: "pick_max best ((m, snd (fst r1)) # xs) = pick_max (max_step m r1 best) xs"
  by (simp add: pick_max_def max_step_def)

lemma pick_min_Cons: "pick_min best ((m, snd (fst r1)) # xs) = pick_min (min_step m r1 best) xs"
  by (simp add: pick_min_def min_step_def)

lemma minimax_max_loop_pick:
  "minimax_max_loop lib f c b col lm 0 ms best = Some r \<Longrightarrow>
     \<exists>vs. map (\<lambda>m. map_option (\<lambda>r. snd (fst r))
                  (minimax_min_node lib f c (play_move lib b col (fst m) (snd m)) col (lm - 1) 0)) ms
             = map Some vs \<and>
          (\<forall>v\<in>set vs. is_utility lib col v) \<and> fst r = pick_max best (zip ms vs) \<and> snd r = c"
proof (induction ms arbitrary: best)
  case Nil
  then show ?case by (auto simp: pick_max_def)
next
  case (Cons m ms)
  from Cons.prems obtain r1 where
    ch: "minimax_min_node lib f c (play_move lib b col (fst m) (snd m)) col (lm - 1) 0 = Some r1"
    and rest: "minimax_max_loop lib f (snd r1) b col lm 0 ms (max_step m r1 best) = Some r"
    by (rule minimax_max_loop_ConsE)
  from minimax_nocache_cache(2)[OF ch] have c: "snd r1 = c" .
  from Cons.IH[OF rest[unfolded c]] obtain vs where
    vs: "map (\<lambda>m. map_option (\<lambda>r. snd (fst r))
                  (minimax_min_node lib f c (play_move lib b col (fst m) (snd m)) col (lm - 1) 0)) ms
             = map Some vs"
      "\<forall>v\<in>set vs. is_utility lib col v" "fst r = pick_max (max_step m r1 best) (zip ms vs)" "snd r = c"
    by blast
  show ?case
    using ch vs minimax_nocache_value(2)[OF ch]
    by (intro exI[of _ "snd (fst r1) # vs"]) (simp add: pick_max_Cons)
qed

lemma minimax_min_loop_pick:
  "minimax_min_loop lib f c b col lm 0 opp ms best = Some r \<Longrightarrow>
     \<exists>vs. map (\<lambda>m. map_option (\<lambda>r. snd (fst r))
                  (minimax_max_node lib f c (play_move lib b opp (fst m) (snd m)) col (lm - 1) 0)) ms
             = map Some vs \<and>
          (\<forall>v\<in>set vs. is_utility lib col v) \<and> fst r = pick_min best (zip ms vs) \<and> snd r = c"
proof (induction ms arbitrary: best)
  case Nil
  then show ?case by (auto simp: pick_min_def)
next
  case (Cons m ms)
  from Cons.prems obtain r1 where
    ch: "minimax_max_node lib f c (play_move lib b opp (fst m) (snd m)) col (lm - 1) 0 = Some r1"
    and rest: "minimax_min_loop lib f (snd r1) b col lm 0 opp ms (min_step m r1 best) = Some r"
    by (rule minimax_min_loop_ConsE)
  from minimax_nocache_cache(1)[OF ch] have c: "snd r1 = c" .
  from Cons.IH[OF rest[unfolded c]] obtain vs where
    vs: "map (\<lambda>m. map_option (\<lambda>r. snd (fst r))
                  (minimax_max_node lib f c (play_move lib b opp (fst m) (snd m)) col (lm - 1) 0)) ms
             = map Some vs"
      "\<forall>v\<in>set vs. is_utility lib col v" "fst r = pick_min (min_step m r1 best) (zip ms vs)" "snd r = c"
    by blast
  show ?case
    using ch vs minimax_nocache_value(1)[OF ch]
    by (intro exI[of _ "snd (fst r1) # vs"]) (simp add: pick_min_Cons)
qed

lemma zip_values_bound:
  assumes "\<forall>v\<in>set vs. is_utility lib col v"
  shows "\<forall>x\<in>set (zip ms vs). NegInf < snd x" "\<forall>x\<in>set (zip ms vs). snd x < PosInf"
proof -
  have "snd x \<in> set vs" if "x \<in> set (zip ms vs)" for x
    using that by (metis prod.collapse set_zip_rightD)
  with assms have "is_utility lib col (snd x)" if "x \<in> set (zip ms vs)" for x
    using that by blast
  then show "\<forall>x\<in>set (zip ms vs). NegInf < snd x" "\<forall>x\<in>set (zip ms vs). snd x < PosInf"
    using is_utility_not_inf by blast+
qed

lemma minimax_max_node_first_greatest:
  assumes "get_possible_moves lib board color \<noteq> []" "limit \<noteq> 0"
    and "minimax_max_node lib (Suc fuel) cache board color limit 0 = Some ((bm, v), c')"
  shows "\<exists>vs i. max_node_children lib fuel cache board color limit = map Some vs \<and>
           first_greatest vs i \<and> bm = Some (get_possible_moves lib board color ! i) \<and> v = vs ! i"
  using assms(3)
proof (cases rule: minimax_max_node_SomeE)
  case (inner x)
  let ?ms = "get_possible_moves lib board color"
  from minimax_max_loop_pick[OF inner(4)] obtain vs where
    vs: "max_node_children lib fuel cache board color limit = map Some vs"
      "\<forall>v\<in>set vs. is_utility lib color v" "fst x = pick_max (None, NegInf) (zip ?ms vs)"
    unfolding max_node_children_def by blast
  from arg_cong[OF vs(1), of length] have len: "length vs = length ?ms"
    by (simp add: max_node_children_def)
  with assms(1) have ne: "zip ?ms vs \<noteq> []"
    by (cases ?ms) (simp, cases vs, simp_all)
  from pick_max_first_greatest[OF ne zip_values_bound(1)[OF vs(2)]] obtain i where
    i: "first_greatest (map snd (zip ?ms vs)) i"
      "pick_max (None, NegInf) (zip ?ms vs) = (Some (fst (zip ?ms vs ! i)), snd (zip ?ms vs ! i))"
    by blast
  from len have ms: "map snd (zip ?ms vs) = vs" by (simp add: map_snd_zip)
  from i(1) ms have fg: "first_greatest vs i" by simp
  then have il: "i < length vs" by (simp add: first_greatest_def)
  with len have z: "zip ?ms vs ! i = (?ms ! i, vs ! i)" by simp
  from inner(5) have "fst x = (bm, v)" by auto
  with vs(3) i(2) z have "bm = Some (?ms ! i)" "v = vs ! i" by simp_all
  with vs(1) fg show ?thesis by blast
qed (use assms in simp_all)

lemma minimax_min_node_first_least:
  assumes "get_possible_moves lib board (other color) \<noteq> []" "limit \<noteq> 0"
    and "minimax_min_node lib (Suc fuel) cache board color limit 0 = Some ((bm, v), c')"
  shows "\<exists>vs i. min_node_children lib fuel cache board color limit = map Some vs \<and>
           first_least vs i \<and> bm = Some (get_possible_moves lib board (other color) ! i) \<and> v = vs ! i"
  using assms(3)
proof (cases rule: minimax_min_node_SomeE)
  case (inner x)
  let ?ms = "get_possible_moves lib board (other color)"
  from minimax_min_loop_pick[OF inner(4)] obtain vs where
    vs: "min_node_children lib fuel cache board color limit = map Some vs"
      "\<forall>v\<in>set vs. is_utility lib color v" "fst x = pick_min (None, PosInf) (zip ?ms vs)"
    unfolding min_node_children_def by blast
  from arg_cong[OF vs(1), of length] have len: "length vs = length ?ms"
    by (simp add: min_node_children_def)
  with assms(1) have ne: "zip ?ms vs \<noteq> []"
    by (cases ?ms) (simp, cases vs, simp_all)
  from pick_min_first_least[OF ne zip_values_bound(2)[OF vs(2)]] obtain i where
    i: "first_least (map snd (zip ?ms vs)) i"
      "pick_min (None, PosInf) (zip ?ms vs) = (Some (fst (zip ?ms vs ! i)), snd (zip ?ms vs ! i))"
    by blast
  from len have ms: "map snd (zip ?ms vs) = vs" by (simp add: map_snd_zip)
  from i(1) ms have fg: "first_least vs i" by simp
  then have il: "i < length vs" by (simp add: first_least_def)
  with len have z: "zip ?ms vs ! i = (?ms ! i, vs ! i)" by simp
  from inner(5) have "fst x = (bm, v)" by auto
  with vs(3) i(2) z have "bm = Some (?ms ! i)" "v = vs ! i" by simp_all
  with vs(1) fg show ?thesis by blast
qed (use assms in simp_all)

lemma minimax_nocache_result:
  "map_option fst (minimax_max_node lib f c b col lm 0) = Some x \<Longrightarrow> minimax_max_node lib f c b col lm 0 = Some (x, c)"
  "map_option fst (minimax_min_node lib f c b col lm 0) = Some x \<Longrightarrow> minimax_min_node lib f c b col lm 0 = Some (x, c)"
  using minimax_nocache_cache[of lib f c b col lm] by (auto simp: prod_eq_iff)

lemma alphabeta_nocache_result:
  "map_option fst (alphabeta_max_node lib f c b col alpha beta lm 0 ord) = Some x
     \<Longrightarrow> alphabeta_max_node lib f c b col alpha beta lm 0 ord = Some (x, c)"
  "map_option fst (alphabeta_min_node lib f c b col alpha beta lm 0 ord) = Some x
     \<Longrightarrow> alphabeta_min_node lib f c b col alpha beta lm 0 ord = Some (x, c)"
  using alphabeta_nocache_cache[of lib f c b col alpha beta lm ord] by (auto simp: prod_eq_iff)

lemma agrees_refl [simp]: "agrees alpha beta v v"
  by (simp add: agrees_def)

lemma agrees_full: "agrees NegInf PosInf v ab \<Longrightarrow> NegInf < ab \<Longrightarrow> ab < PosInf \<Longrightarrow> ab = v"
  by (simp add: agrees_def)

lemma snd_max_step [simp]: "snd (max_step m r best) = max (snd best) (snd (fst r))"
  by (auto simp: max_step_def max_def)

lemma snd_min_step [simp]: "snd (min_step m r best) = min (snd best) (snd (fst r))"
  by (auto simp: min_step_def min_def)

lemma max_loop_inv_continue:
  fixes mu :: util
  assumes "mu < beta" "alpha0 < beta" "mu \<le> alpha0 \<longrightarrow> Vp \<le> mu" "alpha0 < mu \<longrightarrow> mu = Vp"
    and "agrees (max alpha0 mu) beta w x" and "\<not> beta \<le> max mu x"
  shows "max mu x < beta" "max mu x \<le> alpha0 \<longrightarrow> max Vp w \<le> max mu x"
    "alpha0 < max mu x \<longrightarrow> max mu x = max Vp w"
  using assms by (auto simp: agrees_def max_def split: if_splits)

lemma max_loop_inv_stop:
  fixes mu :: util
  assumes "mu < beta" "alpha0 < beta"
    and "agrees (max alpha0 mu) beta w x" and "beta \<le> max mu x" and "w \<le> V"
  shows "agrees alpha0 beta V (max mu x)"
  using assms by (auto simp: agrees_def max_def split: if_splits)

lemma max_loop_inv_end:
  fixes mu :: util
  assumes "mu < beta" "mu \<le> alpha0 \<longrightarrow> Vp \<le> mu" "alpha0 < mu \<longrightarrow> mu = Vp"
  shows "agrees alpha0 beta Vp mu"
  using assms by (auto simp: agrees_def)

lemma min_loop_inv_continue:
  fixes mu :: util
  assumes "alpha < mu" "alpha < beta0" "beta0 \<le> mu \<longrightarrow> mu \<le> Vp" "mu < beta0 \<longrightarrow> mu = Vp"
    and "agrees alpha (min beta0 mu) w x" and "\<not> min mu x \<le> alpha"
  shows "alpha < min mu x" "beta0 \<le> min mu x \<longrightarrow> min mu x \<le> min Vp w"
    "min mu x < beta0 \<longrightarrow> min mu x = min Vp w"
  using assms by (auto simp: agrees_def min_def split: if_splits)

lemma min_loop_inv_stop:
  fixes mu :: util
  assumes "alpha < mu" "alpha < beta0"
    and "agrees alpha (min beta0 mu) w x" and "min mu x \<le> alpha" and "V \<le> w"
  shows "agrees alpha beta0 V (min mu x)"
  using assms by (auto simp: agrees_def min_def split: if_splits)

lemma min_loop_inv_end:
  fixes mu :: util
  assumes "alpha < mu" "beta0 \<le> mu \<longrightarrow> mu \<le> Vp" "mu < beta0 \<longrightarrow> mu = Vp"
  shows "agrees alpha beta0 Vp mu"
  using assms by (auto simp: agrees_def)

lemma Max_insert_max:
  fixes a :: util
  assumes "finite A"
  shows "Max (insert (max a b) A) = Max (insert a (insert b A))"
proof (cases "A = {}")
  case True
  then show ?thesis by (simp add: max.commute)
next
  case False
  with assms show ?thesis by (simp add: max.assoc)
qed

lemma Min_insert_min:
  fixes a :: util
  assumes "finite A"
  shows "Min (insert (min a b) A) = Min (insert a (insert b A))"
proof (cases "A = {}")
  case True
  then show ?thesis by (simp add: min.commute)
next
  case False
  with assms show ?thesis by (simp add: min.assoc)
qed

lemma snd_pick_max: "snd (pick_max best xs) = Max (insert (snd best) (snd ` set xs))"
proof (induction xs arbitrary: best)
  case Nil
  show ?case by (simp add: pick_max_def)
next
  case (Cons x xs)
  have "pick_max best (x # xs) = pick_max (if snd x > snd best then (Some (fst x), snd x) else best) xs"
    by (simp add: pick_max_def)
  moreover have "snd (if snd x > snd best then (Some (fst x), snd x) else best) = max (snd best) (snd x)"
    by (auto simp: max_def)
  ultimately show ?case
    using Cons.IH[of "if snd x > snd best then (Some (fst x), snd x) else best"]
    by (simp add: Max_insert_max)
qed

lemma snd_pick_min: "snd (pick_min best xs) = Min (insert (snd best) (snd ` set xs))"
proof (induction xs arbitrary: best)
  case Nil
  show ?case by (simp add: pick_min_def)
next
  case (Cons x xs)
  have "pick_min best (x # xs) = pick_min (if snd x < snd best then (Some (fst x), snd x) else best) xs"
    by (simp add: pick_min_def)
  moreover have "snd (if snd x < snd best then (Some (fst x), snd x) else best) = min (snd best) (snd x)"
    by (auto simp: min_def)
  ultimately show ?case
    using Cons.IH[of "if snd x < snd best then (Some (fst x), snd x) else best"]
    by (simp add: Min_insert_min)
qed

lemma alphabeta_max_loop_correct:
  assumes IH: "\<forall>b alpha beta r. alpha < beta \<and> minimax_min_node lib f Map.empty b col (lm - 1) 0 = Some r
                 \<longrightarrow> (\<exists>r'. alphabeta_min_node lib f Map.empty b col alpha beta (lm - 1) 0 ord = Some r' \<and>
                            agrees alpha beta (snd (fst r)) (snd (fst r')))"
  shows "\<forall>s\<in>set ss. minimax_min_node lib f Map.empty (fst s) col (lm - 1) 0 \<noteq> None \<Longrightarrow>
         snd best < beta \<Longrightarrow> alpha0 < beta \<Longrightarrow> (snd best \<le> alpha0 \<longrightarrow> Vp \<le> snd best) \<Longrightarrow>
         (alpha0 < snd best \<longrightarrow> snd best = Vp) \<Longrightarrow>
         \<exists>r'. alphabeta_max_loop lib f Map.empty col (max alpha0 (snd best)) beta lm 0 ord ss best = Some r' \<and>
              agrees alpha0 beta
                (Max (insert Vp ((\<lambda>s. value_of (minimax_min_node lib f Map.empty (fst s) col (lm - 1) 0)) ` set ss)))
                (snd (fst r'))"
proof (induction ss arbitrary: best Vp)
  case Nil
  then show ?case by (simp add: max_loop_inv_end)
next
  case (Cons s ss)
  let ?W = "\<lambda>s. value_of (minimax_min_node lib f Map.empty (fst s) col (lm - 1) 0)"
  let ?a = "max alpha0 (snd best)"
  from Cons.prems(1) obtain r where r: "minimax_min_node lib f Map.empty (fst s) col (lm - 1) 0 = Some r"
    by auto
  then have w: "?W s = snd (fst r)" by (simp add: value_of_def)
  from Cons.prems(2,3) have ab: "?a < beta" by simp
  from IH[rule_format, of ?a beta "fst s" r] ab r obtain r1 where
    r1: "alphabeta_min_node lib f Map.empty (fst s) col ?a beta (lm - 1) 0 ord = Some r1"
    and ag: "agrees ?a beta (snd (fst r)) (snd (fst r1))"
    by blast
  from alphabeta_nocache_cache(2)[OF r1] have c1: "snd r1 = Map.empty" .
  let ?best' = "max_step (snd s) r1 best"
  let ?V = "Max (insert Vp (?W ` set (s # ss)))"
  show ?case
  proof (cases "beta \<le> snd ?best'")
    case True
    have "?W s \<le> ?V" by (intro Max_ge) auto
    then have "snd (fst r) \<le> ?V" by (simp only: w)
    from max_loop_inv_stop[OF Cons.prems(2,3) ag _ this] True
    have "agrees alpha0 beta ?V (snd ?best')" by simp
    moreover have "alphabeta_max_loop lib f Map.empty col ?a beta lm 0 ord (s # ss) best = Some (?best', snd r1)"
      using True by (simp add: alphabeta_max_loop_Cons[OF r1])
    ultimately show ?thesis by (intro exI[of _ "(?best', snd r1)"]) simp
  next
    case False
    then have nb: "\<not> beta \<le> max (snd best) (snd (fst r1))" by simp
    note inv = max_loop_inv_continue[OF Cons.prems(2,3,4,5) ag nb]
    have al: "max (max alpha0 (snd best)) (max (snd best) (snd (fst r1)))
                = max alpha0 (max (snd best) (snd (fst r1)))"
      by (simp add: max.assoc)
    from Cons.prems(1) have ch: "\<forall>s\<in>set ss. minimax_min_node lib f Map.empty (fst s) col (lm - 1) 0 \<noteq> None"
      by simp
    from Cons.IH[OF ch, of ?best' "max Vp (snd (fst r))"] inv Cons.prems(3)
    obtain r' where
      r': "alphabeta_max_loop lib f Map.empty col (max alpha0 (snd ?best')) beta lm 0 ord ss ?best' = Some r'"
      and ag': "agrees alpha0 beta (Max (insert (max Vp (snd (fst r))) (?W ` set ss))) (snd (fst r'))"
      by auto
    have VE: "Max (insert (max Vp (snd (fst r))) (?W ` set ss)) = ?V"
      by (simp add: Max_insert_max w)
    have eq: "alphabeta_max_loop lib f Map.empty col ?a beta lm 0 ord (s # ss) best = Some r'"
      using r' False by (simp add: alphabeta_max_loop_Cons[OF r1] c1 al)
    from ag' have "agrees alpha0 beta ?V (snd (fst r'))" by (simp only: VE)
    with eq show ?thesis by blast
  qed
qed

lemma alphabeta_min_loop_correct:
  assumes IH: "\<forall>b alpha beta r. alpha < beta \<and> minimax_max_node lib f Map.empty b col (lm - 1) 0 = Some r
                 \<longrightarrow> (\<exists>r'. alphabeta_max_node lib f Map.empty b col alpha beta (lm - 1) 0 ord = Some r' \<and>
                            agrees alpha beta (snd (fst r)) (snd (fst r')))"
  shows "\<forall>s\<in>set ss. minimax_max_node lib f Map.empty (fst s) col (lm - 1) 0 \<noteq> None \<Longrightarrow>
         alpha < snd best \<Longrightarrow> alpha < beta0 \<Longrightarrow> (beta0 \<le> snd best \<longrightarrow> snd best \<le> Vp) \<Longrightarrow>
         (snd best < beta0 \<longrightarrow> snd best = Vp) \<Longrightarrow>
         \<exists>r'. alphabeta_min_loop lib f Map.empty col alpha (min beta0 (snd best)) lm 0 ord ss best = Some r' \<and>
              agrees alpha beta0
                (Min (insert Vp ((\<lambda>s. value_of (minimax_max_node lib f Map.empty (fst s) col (lm - 1) 0)) ` set ss)))
                (snd (fst r'))"
proof (induction ss arbitrary: best Vp)
  case Nil
  then show ?case by (simp add: min_loop_inv_end)
next
  case (Cons s ss)
  let ?W = "\<lambda>s. value_of (minimax_max_node lib f Map.empty (fst s) col (lm - 1) 0)"
  let ?b = "min beta0 (snd best)"
  from Cons.prems(1) obtain r where r: "minimax_max_node lib f Map.empty (fst s) col (lm - 1) 0 = Some r"
    by auto
  then have w: "?W s = snd (fst r)" by (simp add: value_of_def)
  from Cons.prems(2,3) have ab: "alpha < ?b" by simp
  from IH[rule_format, of alpha ?b "fst s" r] ab r obtain r1 where
    r1: "alphabeta_max_node lib f Map.empty (fst s) col alpha ?b (lm - 1) 0 ord = Some r1"
    and ag: "agrees alpha ?b (snd (fst r)) (snd (fst r1))"
    by blast
  from alphabeta_nocache_cache(1)[OF r1] have c1: "snd r1 = Map.empty" .
  let ?best' = "min_step (snd s) r1 best"
  let ?V = "Min (insert Vp (?W ` set (s # ss)))"
  show ?case
  proof (cases "snd ?best' \<le> alpha")
    case True
    have "?V \<le> ?W s" by (intro Min_le) auto
    then have "?V \<le> snd (fst r)" by (simp only: w)
    from min_loop_inv_stop[OF Cons.prems(2,3) ag _ this] True
    have "agrees alpha beta0 ?V (snd ?best')" by simp
    moreover have "alphabeta_min_loop lib f Map.empty col alpha ?b lm 0 ord (s # ss) best = Some (?best', snd r1)"
      using True by (simp add: alphabeta_min_loop_Cons[OF r1])
    ultimately show ?thesis by (intro exI[of _ "(?best', snd r1)"]) simp
  next
    case False
    then have nb: "\<not> min (snd best) (snd (fst r1)) \<le> alpha" by simp
    note inv = min_loop_inv_continue[OF Cons.prems(2,3,4,5) ag nb]
    have al: "min (min beta0 (snd best)) (min (snd best) (snd (fst r1)))
                = min beta0 (min (snd best) (snd (fst r1)))"
      by (simp add: min.assoc)
    from Cons.prems(1) have ch: "\<forall>s\<in>set ss. minimax_max_node lib f Map.empty (fst s) col (lm - 1) 0 \<noteq> None"
      by simp
    from Cons.IH[OF ch, of ?best' "min Vp (snd (fst r))"] inv Cons.prems(3)
    obtain r' where
      r': "alphabeta_min_loop lib f Map.empty col alpha (min beta0 (snd ?best')) lm 0 ord ss ?best' = Some r'"
      and ag': "agrees alpha beta0 (Min (insert (min Vp (snd (fst r))) (?W ` set ss))) (snd (fst r'))"
      by auto
    have VE: "Min (insert (min Vp (snd (fst r))) (?W ` set ss)) = ?V"
      by (simp add: Min_insert_min w)
    have eq: "alphabeta_min_loop lib f Map.empty col alpha ?b lm 0 ord (s # ss) best = Some r'"
      using r' False by (simp add: alphabeta_min_loop_Cons[OF r1] c1 al)
    from ag' have "agrees alpha beta0 ?V (snd (fst r'))" by (simp only: VE)
    with eq show ?thesis by blast
  qed
qed

lemma NegInf_least [simp]: "NegInf \<le> a"
  by (simp add: less_eq_util_def)

lemma PosInf_greatest [simp]: "a \<le> PosInf"
  by (cases a) (simp_all add: less_eq_util_def)

lemma max_NegInf [simp]: "max a NegInf = a" "max NegInf a = a"
  by (simp_all add: max_def antisym)

lemma min_PosInf [simp]: "min a PosInf = a" "min PosInf a = a"
  by (simp_all add: min_def antisym)

lemma set_max_successors:
  "set (max_successors lib b col ord)
     = (\<lambda>m. (play_move lib b col (fst m) (snd m), m)) ` set (get_possible_moves lib b col)"
  by (simp add: max_successors_def sort_descending_def Let_def)

lemma set_min_successors:
  "set (min_successors lib b col ord)
     = (\<lambda>m. (play_move lib b (other col) (fst m) (snd m), m)) ` set (get_possible_moves lib b (other col))"
  by (simp add: min_successors_def sort_ascending_def Let_def)

lemma children_values:
  assumes "map (\<lambda>m. map_option (\<lambda>r. snd (fst r)) (N m)) ms = map Some vs"
  shows "\<forall>m\<in>set ms. N m \<noteq> None" "vs = map (\<lambda>m. value_of (N m)) ms"
proof -
  show 1: "\<forall>m\<in>set ms. N m \<noteq> None"
  proof
    fix m assume "m \<in> set ms"
    then have "map_option (\<lambda>r. snd (fst r)) (N m) \<in> set (map Some vs)"
      using assms[symmetric] by simp
    then show "N m \<noteq> None" by auto
  qed
  have "map the (map (\<lambda>m. map_option (\<lambda>r. snd (fst r)) (N m)) ms) = map the (map Some vs)"
    using assms by simp
  then have "vs = map (\<lambda>m. the (map_option (\<lambda>r. snd (fst r)) (N m))) ms"
    by (simp add: comp_def)
  also have "\<dots> = map (\<lambda>m. value_of (N m)) ms"
    using 1 by (intro map_cong) (auto simp: value_of_def)
  finally show "vs = map (\<lambda>m. value_of (N m)) ms" .
qed

lemma snd_set_zip: "length xs = length ys \<Longrightarrow> snd ` set (zip xs ys) = set ys"
  by (metis map_snd_zip set_map)

lemma alphabeta_correct:
  "alpha < beta \<Longrightarrow>
     (minimax_min_node lib f Map.empty b col lm 0 = Some r \<longrightarrow>
        (\<exists>r'. alphabeta_min_node lib f Map.empty b col alpha beta lm 0 ord = Some r' \<and>
              agrees alpha beta (snd (fst r)) (snd (fst r')))) \<and>
     (minimax_max_node lib f Map.empty b col lm 0 = Some r \<longrightarrow>
        (\<exists>r'. alphabeta_max_node lib f Map.empty b col alpha beta lm 0 ord = Some r' \<and>
              agrees alpha beta (snd (fst r)) (snd (fst r'))))"
proof (induction f arbitrary: b alpha beta lm r)
  case 0
  then show ?case by simp
next
  case (Suc f)
  have mn: "\<forall>b alpha beta r. alpha < beta \<and> minimax_min_node lib f Map.empty b col (lm - 1) 0 = Some r
                 \<longrightarrow> (\<exists>r'. alphabeta_min_node lib f Map.empty b col alpha beta (lm - 1) 0 ord = Some r' \<and>
                            agrees alpha beta (snd (fst r)) (snd (fst r')))"
    and mx: "\<forall>b alpha beta r. alpha < beta \<and> minimax_max_node lib f Map.empty b col (lm - 1) 0 = Some r
                 \<longrightarrow> (\<exists>r'. alphabeta_max_node lib f Map.empty b col alpha beta (lm - 1) 0 ord = Some r' \<and>
                            agrees alpha beta (snd (fst r)) (snd (fst r')))"
    using Suc.IH by blast+
  have A: "\<exists>r'. alphabeta_min_node lib (Suc f) Map.empty b col alpha beta lm 0 ord = Some r' \<and>
              agrees alpha beta (snd (fst r)) (snd (fst r'))"
    if "minimax_min_node lib (Suc f) Map.empty b col lm 0 = Some r"
    using that
  proof (cases rule: minimax_min_node_SomeE)
    case (hit v)
    then show ?thesis by simp
  next
    case leaf
    then show ?thesis by (auto simp: alphabeta_min_node_unfold)
  next
    case (inner x)
    let ?ms = "get_possible_moves lib b (other col)"
    let ?N = "\<lambda>m. minimax_max_node lib f Map.empty (play_move lib b (other col) (fst m) (snd m)) col (lm - 1) 0"
    from minimax_min_loop_pick[OF inner(4)] obtain vs where
      vs: "map (\<lambda>m. map_option (\<lambda>r. snd (fst r)) (?N m)) ?ms = map Some vs"
        "fst x = pick_min (None, PosInf) (zip ?ms vs)"
      by blast
    note cv = children_values[of ?N ?ms vs, OF vs(1)]
    from cv(2) have len: "length ?ms = length vs" by simp
    have val: "snd (fst x) = Min (insert PosInf (set vs))"
      by (simp add: vs(2) snd_pick_min snd_set_zip[OF len])
    have ch: "\<forall>s\<in>set (min_successors lib b col ord).
                minimax_max_node lib f Map.empty (fst s) col (lm - 1) 0 \<noteq> None"
      using cv(1) by (auto simp: set_min_successors)
    have img: "(\<lambda>s. value_of (minimax_max_node lib f Map.empty (fst s) col (lm - 1) 0))
                 ` set (min_successors lib b col ord) = set vs"
      by (simp add: set_min_successors cv(2) image_image)
    from Suc.prems have "alpha < PosInf" by (rule less_le_trans) simp
    with alphabeta_min_loop_correct[OF mx ch, of alpha "(None, PosInf)" beta PosInf] Suc.prems
    obtain x' where
      x': "alphabeta_min_loop lib f Map.empty col alpha beta lm 0 ord (min_successors lib b col ord) (None, PosInf)
             = Some x'"
      and ag: "agrees alpha beta (Min (insert PosInf (set vs))) (snd (fst x'))"
      by (auto simp: img)
    from inner(5) have "snd (fst r) = snd (fst x)" by simp
    with x' ag val inner(2,3) show ?thesis
      by (simp add: alphabeta_min_node_unfold)
  qed
  have B: "\<exists>r'. alphabeta_max_node lib (Suc f) Map.empty b col alpha beta lm 0 ord = Some r' \<and>
              agrees alpha beta (snd (fst r)) (snd (fst r'))"
    if "minimax_max_node lib (Suc f) Map.empty b col lm 0 = Some r"
    using that
  proof (cases rule: minimax_max_node_SomeE)
    case (hit v)
    then show ?thesis by simp
  next
    case leaf
    then show ?thesis by (auto simp: alphabeta_max_node_unfold)
  next
    case (inner x)
    let ?ms = "get_possible_moves lib b col"
    let ?N = "\<lambda>m. minimax_min_node lib f Map.empty (play_move lib b col (fst m) (snd m)) col (lm - 1) 0"
    from minimax_max_loop_pick[OF inner(4)] obtain vs where
      vs: "map (\<lambda>m. map_option (\<lambda>r. snd (fst r)) (?N m)) ?ms = map Some vs"
        "fst x = pick_max (None, NegInf) (zip ?ms vs)"
      by blast
    note cv = children_values[of ?N ?ms vs, OF vs(1)]
    from cv(2) have len: "length ?ms = length vs" by simp
    have val: "snd (fst x) = Max (insert NegInf (set vs))"
      by (simp add: vs(2) snd_pick_max snd_set_zip[OF len])
    have ch: "\<forall>s\<in>set (max_successors lib b col ord).
                minimax_min_node lib f Map.empty (fst s) col (lm - 1) 0 \<noteq> None"
      using cv(1) by (auto simp: set_max_successors)
    have img: "(\<lambda>s. value_of (minimax_min_node lib f Map.empty (fst s) col (lm - 1) 0))
                 ` set (max_successors lib b col ord) = set vs"
      by (simp add: set_max_successors cv(2) image_image)
    from Suc.prems have "NegInf < beta" by (rule le_less_trans[rotated]) simp
    with alphabeta_max_loop_correct[OF mn ch, of "(None, NegInf)" beta alpha NegInf] Suc.prems
    obtain x' where
      x': "alphabeta_max_loop lib f Map.empty col alpha beta lm 0 ord (max_successors lib b col ord) (None, NegInf)
             = Some x'"
      and ag: "agrees alpha beta (Max (insert NegInf (set vs))) (snd (fst x'))"
      by (auto simp: img)
    from inner(5) have "snd (fst r) = snd (fst x)" by simp
    with x' ag val inner(2,3) show ?thesis
      by (simp add: alphabeta_max_node_unfold)
  qed
  from A B show ?case by blast
qed

lemma alphabeta_value_is_minimax_value:
  assumes "minimax_max_node lib f c b col lm 0 = Some r"
  shows "\<exists>m'. alphabeta_max_node lib f c b col NegInf PosInf lm 0 ord = Some ((m', snd (fst r)), c)"
proof -
  from assms minimax_nocache[of lib f c b col lm] obtain r0 where
    r0: "minimax_max_node lib f Map.empty b col lm 0 = Some r0" and fr: "fst r = fst r0"
    by (cases "minimax_max_node lib f Map.empty b col lm 0") auto
  have "NegInf < PosInf" by (simp add: less_util_def)
  from alphabeta_correct[OF this, of lib f b col lm r0 ord] r0 obtain r' where
    r': "alphabeta_max_node lib f Map.empty b col NegInf PosInf lm 0 ord = Some r'"
    and ag: "agrees NegInf PosInf (snd (fst r0)) (snd (fst r'))"
    by blast
  from alphabeta_node_ok[where lib=lib and col=col and c=Map.empty and f=f and b=b and alpha=NegInf
         and beta=PosInf and lm=lm and ca=0 and ord=ord and r=r', OF utility_cache_empty] r'
  have "is_utility lib col (snd (fst r'))" by (simp add: node_ok_def)
  with ag have "snd (fst r') = snd (fst r0)"
    by (intro agrees_full) simp_all
  with r' fr alphabeta_nocache[of lib f c b col NegInf PosInf lm ord]
  have "alphabeta_max_node lib f c b col NegInf PosInf lm 0 ord = Some ((fst (fst r'), snd (fst r)), c)"
    by (simp add: prod_eq_iff)
  then show ?thesis by blast
qed

lemma same_outcome_None: "same_outcome sound fresh None plain \<longleftrightarrow> plain = None"
  by (simp add: same_outcome_def)

lemma same_outcome_Some:
  "same_outcome sound fresh (Some r) plain \<longleftrightarrow>
     sound (snd r) \<and> (\<exists>r0. plain = Some r0 \<and> snd (fst r) = snd (fst r0) \<and> (fresh \<longrightarrow> fst r = fst r0))"
  by (simp add: same_outcome_def)

lemma max_step_value: "snd (fst r) = snd (fst r0) \<Longrightarrow> max_step m r best = max_step m r0 best"
  by (simp add: max_step_def)

lemma min_step_value: "snd (fst r) = snd (fst r0) \<Longrightarrow> min_step m r best = min_step m r0 best"
  by (simp add: min_step_def)

lemma minimax_max_loop_memo:
  assumes IH: "\<forall>c b'. sound c \<and> ok b' \<and> discs b' = Suc (discs b) \<longrightarrow>
                  same_outcome sound (lookup ca c b' = None)
                    (minimax_min_node lib f c b' col (lm - 1) ca)
                    (minimax_min_node lib f Map.empty b' col (lm - 1) 0)"
    and lib: "adds_one_disc lib ok discs" and ok: "ok b"
  shows "sound c \<Longrightarrow> set ms \<subseteq> set (get_possible_moves lib b col) \<Longrightarrow>
         same_outcome sound True (minimax_max_loop lib f c b col lm ca ms best)
           (minimax_max_loop lib f Map.empty b col lm 0 ms best)"
proof (induction ms arbitrary: c best)
  case Nil
  then show ?case by (simp add: same_outcome_def)
next
  case (Cons m ms)
  let ?b' = "play_move lib b col (fst m) (snd m)"
  from Cons.prems(2) have m: "m \<in> set (get_possible_moves lib b col)" by simp
  with lib ok have b': "ok ?b'" "discs ?b' = Suc (discs b)"
    unfolding adds_one_disc_def by blast+
  from IH[rule_format, of c ?b'] Cons.prems(1) b'
  have so: "same_outcome sound (lookup ca c ?b' = None)
              (minimax_min_node lib f c ?b' col (lm - 1) ca)
              (minimax_min_node lib f Map.empty ?b' col (lm - 1) 0)"
    by simp
  show ?case
  proof (cases "minimax_min_node lib f c ?b' col (lm - 1) ca")
    case None
    with so have "minimax_min_node lib f Map.empty ?b' col (lm - 1) 0 = None"
      by (simp add: same_outcome_None)
    with None show ?thesis
      by (simp add: minimax_max_loop_unfold same_outcome_None)
  next
    case (Some r1)
    with so obtain r0 where snd1: "sound (snd r1)"
      and r0: "minimax_min_node lib f Map.empty ?b' col (lm - 1) 0 = Some r0"
      and v: "snd (fst r1) = snd (fst r0)"
      by (auto simp: same_outcome_Some)
    from minimax_nocache_cache(2)[OF r0] have e: "snd r0 = Map.empty" .
    from Cons.prems(2) have sub: "set ms \<subseteq> set (get_possible_moves lib b col)" by simp
    from Cons.IH[OF snd1 sub, of "max_step m r1 best"]
    show ?thesis
      by (simp add: minimax_max_loop_Cons[OF Some] minimax_max_loop_Cons[OF r0] e max_step_value[OF v])
  qed
qed

lemma minimax_min_loop_memo:
  assumes IH: "\<forall>c b'. sound c \<and> ok b' \<and> discs b' = Suc (discs b) \<longrightarrow>
                  same_outcome sound (lookup ca c b' = None)
                    (minimax_max_node lib f c b' col (lm - 1) ca)
                    (minimax_max_node lib f Map.empty b' col (lm - 1) 0)"
    and lib: "adds_one_disc lib ok discs" and ok: "ok b"
  shows "sound c \<Longrightarrow> set ms \<subseteq> set (get_possible_moves lib b opp) \<Longrightarrow>
         same_outcome sound True (minimax_min_loop lib f c b col lm ca opp ms best)
           (minimax_min_loop lib f Map.empty b col lm 0 opp ms best)"
proof (induction ms arbitrary: c best)
  case Nil
  then show ?case by (simp add: same_outcome_def)
next
  case (Cons m ms)
  let ?b' = "play_move lib b opp (fst m) (snd m)"
  from Cons.prems(2) have m: "m \<in> set (get_possible_moves lib b opp)" by simp
  with lib ok have b': "ok ?b'" "discs ?b' = Suc (discs b)"
    unfolding adds_one_disc_def by blast+
  from IH[rule_format, of c ?b'] Cons.prems(1) b'
  have so: "same_outcome sound (lookup ca c ?b' = None)
              (minimax_max_node lib f c ?b' col (lm - 1) ca)
              (minimax_max_node lib f Map.empty ?b' col (lm - 1) 0)"
    by simp
  show ?case
  proof (cases "minimax_max_node lib f c ?b' col (lm - 1) ca")
    case None
    with so have "minimax_max_node lib f Map.empty ?b' col (lm - 1) 0 = None"
      by (simp add: same_outcome_None)
    with None show ?thesis
      by (simp add: minimax_min_loop_unfold same_outcome_None)
  next
    case (Some r1)
    with so obtain r0 where snd1: "sound (snd r1)"
      and r0: "minimax_max_node lib f Map.empty ?b' col (lm - 1) 0 = Some r0"
      and v: "snd (fst r1) = snd (fst r0)"
      by (auto simp: same_outcome_Some)
    from minimax_nocache_cache(1)[OF r0] have e: "snd r0 = Map.empty" .
    from Cons.prems(2) have sub: "set ms \<subseteq> set (get_possible_moves lib b opp)" by simp
    from Cons.IH[OF snd1 sub, of "min_step m r1 best"]
    show ?thesis
      by (simp add: minimax_min_loop_Cons[OF Some] minimax_min_loop_Cons[OF r0] e min_step_value[OF v])
  qed
qed

lemma cache_sound_store:
  assumes "cache_sound lib ok discs K1 K2 P col c" "ok b" "discs b \<le> K1"
    and "map_option (\<lambda>r. snd (fst r)) (reference lib discs K1 K2 P col b) = Some v"
  shows "cache_sound lib ok discs K1 K2 P col (store ca c b v)"
  using assms unfolding cache_sound_def store_def by auto

lemma cache_sound_lookup:
  assumes "cache_sound lib ok discs K1 K2 P col c" "lookup ca c b = Some v"
  shows "map_option (\<lambda>r. snd (fst r)) (reference lib discs K1 K2 P col b) = Some v"
  using assms unfolding cache_sound_def lookup_def by (auto split: if_splits)

lemma cache_sound_empty [simp]: "cache_sound lib ok discs K1 K2 P col Map.empty"
  by (simp add: cache_sound_def)

lemma minimax_max_node_memo:
  assumes sound: "cache_sound lib ok discs K1 K2 P col c" and ok: "ok b" and le: "discs b \<le> K1"
    and ref: "reference lib discs K1 K2 P col b = minimax_max_node lib (Suc f) Map.empty b col lm 0"
    and loop: "same_outcome (cache_sound lib ok discs K1 K2 P col) True
                 (minimax_max_loop lib f c b col lm ca (get_possible_moves lib b col) (None, NegInf))
                 (minimax_max_loop lib f Map.empty b col lm 0 (get_possible_moves lib b col) (None, NegInf))"
  shows "same_outcome (cache_sound lib ok discs K1 K2 P col) (lookup ca c b = None)
           (minimax_max_node lib (Suc f) c b col lm ca)
           (minimax_max_node lib (Suc f) Map.empty b col lm 0)"
proof (cases "lookup ca c b")
  case (Some v)
  from cache_sound_lookup[OF sound Some] ref obtain r0 where
    "minimax_max_node lib (Suc f) Map.empty b col lm 0 = Some r0" "snd (fst r0) = v"
    by auto
  with Some sound show ?thesis
    by (simp add: minimax_max_node_unfold[of lib f c] same_outcome_Some)
next
  case None
  show ?thesis
  proof (cases "get_possible_moves lib b col = [] \<or> lm = 0")
    case True
    then have p: "minimax_max_node lib (Suc f) Map.empty b col lm 0
                    = Some ((None, Fin (compute_utility lib b col)), Map.empty)"
      by (simp add: minimax_max_node_unfold)
    with ref have "map_option (\<lambda>r. snd (fst r)) (reference lib discs K1 K2 P col b)
                     = Some (Fin (compute_utility lib b col))"
      by simp
    from cache_sound_store[OF sound ok le this, of ca] None True p show ?thesis
      by (simp add: minimax_max_node_unfold[of lib f c] same_outcome_Some)
  next
    case False
    let ?L = "minimax_max_loop lib f c b col lm ca (get_possible_moves lib b col) (None, NegInf)"
    let ?Plain = "minimax_max_loop lib f Map.empty b col lm 0 (get_possible_moves lib b col) (None, NegInf)"
    have p: "minimax_max_node lib (Suc f) Map.empty b col lm 0 = ?Plain"
      using False by (simp add: minimax_max_node_unfold option.map_ident cong: option.map_cong)
    have q: "minimax_max_node lib (Suc f) c b col lm ca = map_option (finish ca b) ?L"
      using False None by (simp add: minimax_max_node_unfold)
    show ?thesis
    proof (cases ?L)
      case None
      with loop have "?Plain = None" by (simp add: same_outcome_None)
      with None p q show ?thesis by (simp add: same_outcome_None)
    next
      case (Some x)
      with loop obtain x0 where sx: "cache_sound lib ok discs K1 K2 P col (snd x)"
        and x0: "?Plain = Some x0" and fx: "fst x = fst x0"
        by (auto simp: same_outcome_Some)
      from ref p x0 fx have "map_option (\<lambda>r. snd (fst r)) (reference lib discs K1 K2 P col b)
                     = Some (snd (fst x))"
        by simp
      from cache_sound_store[OF sx ok le this, of ca] Some p q x0 fx show ?thesis
        by (simp add: same_outcome_Some finish_def)
    qed
  qed
qed

lemma minimax_min_node_memo:
  assumes sound: "cache_sound lib ok discs K1 K2 P col c" and ok: "ok b" and le: "discs b \<le> K1"
    and ref: "reference lib discs K1 K2 P col b = minimax_min_node lib (Suc f) Map.empty b col lm 0"
    and loop: "same_outcome (cache_sound lib ok discs K1 K2 P col) True
                 (minimax_min_loop lib f c b col lm ca (other col) (get_possible_moves lib b (other col)) (None, PosInf))
                 (minimax_min_loop lib f Map.empty b col lm 0 (other col) (get_possible_moves lib b (other col))
                    (None, PosInf))"
  shows "same_outcome (cache_sound lib ok discs K1 K2 P col) (lookup ca c b = None)
           (minimax_min_node lib (Suc f) c b col lm ca)
           (minimax_min_node lib (Suc f) Map.empty b col lm 0)"
proof (cases "lookup ca c b")
  case (Some v)
  from cache_sound_lookup[OF sound Some] ref obtain r0 where
    "minimax_min_node lib (Suc f) Map.empty b col lm 0 = Some r0" "snd (fst r0) = v"
    by auto
  with Some sound show ?thesis
    by (simp add: minimax_min_node_unfold[of lib f c] same_outcome_Some)
next
  case None
  show ?thesis
  proof (cases "get_possible_moves lib b (other col) = [] \<or> lm = 0")
    case True
    then have p: "minimax_min_node lib (Suc f) Map.empty b col lm 0
                    = Some ((None, Fin (compute_utility lib b col)), Map.empty)"
      by (simp add: minimax_min_node_unfold)
    with ref have "map_option (\<lambda>r. snd (fst r)) (reference lib discs K1 K2 P col b)
                     = Some (Fin (compute_utility lib b col))"
      by simp
    from cache_sound_store[OF sound ok le this, of ca] None True p show ?thesis
      by (simp add: minimax_min_node_unfold[of lib f c] same_outcome_Some)
  next
    case False
    let ?L = "minimax_min_loop lib f c b col lm ca (other col) (get_possible_moves lib b (other col)) (None, PosInf)"
    let ?Plain = "minimax_min_loop lib f Map.empty b col lm 0 (other col) (get_possible_moves lib b (other col))
                 (None, PosInf)"
    have p: "minimax_min_node lib (Suc f) Map.empty b col lm 0 = ?Plain"
      using False by (simp add: minimax_min_node_unfold option.map_ident cong: option.map_cong)
    have q: "minimax_min_node lib (Suc f) c b col lm ca = map_option (finish ca b) ?L"
      using False None by (simp add: minimax_min_node_unfold)
    show ?thesis
    proof (cases ?L)
      case None
      with loop have "?Plain = None" by (simp add: same_outcome_None)
      with None p q show ?thesis by (simp add: same_outcome_None)
    next
      case (Some x)
      with loop obtain x0 where sx: "cache_sound lib ok discs K1 K2 P col (snd x)"
        and x0: "?Plain = Some x0" and fx: "fst x = fst x0"
        by (auto simp: same_outcome_Some)
      from ref p x0 fx have "map_option (\<lambda>r. snd (fst r)) (reference lib discs K1 K2 P col b)
                     = Some (snd (fst x))"
        by simp
      from cache_sound_store[OF sx ok le this, of ca] Some p q x0 fx show ?thesis
        by (simp add: same_outcome_Some finish_def)
    qed
  qed
qed

lemma minimax_memo:
  assumes lib: "adds_one_disc lib ok discs"
  shows "cache_sound lib ok discs K1 K2 P col c \<Longrightarrow> ok b \<Longrightarrow> f + discs b = K1 \<Longrightarrow> lm + int (discs b) = K2 \<Longrightarrow>
     (odd (discs b + P) \<longrightarrow>
        same_outcome (cache_sound lib ok discs K1 K2 P col) (lookup ca c b = None)
          (minimax_min_node lib f c b col lm ca) (minimax_min_node lib f Map.empty b col lm 0)) \<and>
     (even (discs b + P) \<longrightarrow>
        same_outcome (cache_sound lib ok discs K1 K2 P col) (lookup ca c b = None)
          (minimax_max_node lib f c b col lm ca) (minimax_max_node lib f Map.empty b col lm 0))"
proof (induction f arbitrary: c b lm)
  case 0
  show ?case by (simp add: same_outcome_None)
next
  case (Suc f)
  let ?sound = "cache_sound lib ok discs K1 K2 P col"
  from Suc.prems(3) have le: "discs b \<le> K1" and k1: "K1 - discs b = Suc f" by simp_all
  from Suc.prems(4) have k2: "K2 - int (discs b) = lm" by simp
  have child: "f + discs b' = K1 \<and> (lm - 1) + int (discs b') = K2" if "discs b' = Suc (discs b)" for b'
    using that Suc.prems(3,4) by simp
  have A: "same_outcome ?sound (lookup ca c b = None)
          (minimax_min_node lib (Suc f) c b col lm ca) (minimax_min_node lib (Suc f) Map.empty b col lm 0)"
    if odd: "odd (discs b + P)"
  proof -
    have IH: "\<forall>c b'. ?sound c \<and> ok b' \<and> discs b' = Suc (discs b) \<longrightarrow>
                  same_outcome ?sound (lookup ca c b' = None)
                    (minimax_max_node lib f c b' col (lm - 1) ca)
                    (minimax_max_node lib f Map.empty b' col (lm - 1) 0)"
    proof (intro allI impI)
      fix c b' assume h: "?sound c \<and> ok b' \<and> discs b' = Suc (discs b)"
      with odd have "even (discs b' + P)" by simp
      with Suc.IH[of c b' "lm - 1"] h child[of b'] show
        "same_outcome ?sound (lookup ca c b' = None)
                    (minimax_max_node lib f c b' col (lm - 1) ca)
                    (minimax_max_node lib f Map.empty b' col (lm - 1) 0)"
        by blast
    qed
    have ref: "reference lib discs K1 K2 P col b = minimax_min_node lib (Suc f) Map.empty b col lm 0"
      using odd by (simp add: reference_def k1 k2)
    from minimax_min_loop_memo[OF IH lib Suc.prems(2) Suc.prems(1) subset_refl]
    show ?thesis
      by (intro minimax_min_node_memo[OF Suc.prems(1,2) le ref])
  qed
  have B: "same_outcome ?sound (lookup ca c b = None)
          (minimax_max_node lib (Suc f) c b col lm ca) (minimax_max_node lib (Suc f) Map.empty b col lm 0)"
    if even: "even (discs b + P)"
  proof -
    have IH: "\<forall>c b'. ?sound c \<and> ok b' \<and> discs b' = Suc (discs b) \<longrightarrow>
                  same_outcome ?sound (lookup ca c b' = None)
                    (minimax_min_node lib f c b' col (lm - 1) ca)
                    (minimax_min_node lib f Map.empty b' col (lm - 1) 0)"
    proof (intro allI impI)
      fix c b' assume h: "?sound c \<and> ok b' \<and> discs b' = Suc (discs b)"
      with even have "odd (discs b' + P)" by simp
      with Suc.IH[of c b' "lm - 1"] h child[of b'] show
        "same_outcome ?sound (lookup ca c b' = None)
                    (minimax_min_node lib f c b' col (lm - 1) ca)
                    (minimax_min_node lib f Map.empty b' col (lm - 1) 0)"
        by blast
    qed
    have ref: "reference lib discs K1 K2 P col b = minimax_max_node lib (Suc f) Map.empty b col lm 0"
      using even by (simp add: reference_def k1 k2)
    from minimax_max_loop_memo[OF IH lib Suc.prems(2) Suc.prems(1) subset_refl]
    show ?thesis
      by (intro minimax_max_node_memo[OF Suc.prems(1,2) le ref])
  qed
  from A B show ?case by blast
qed

lemma sum_list_upd: "k < length xs \<Longrightarrow> sum_list (xs[k := x]) + xs ! k = sum_list xs + (x::nat)"
  by (induction xs arbitrary: k) (auto split: nat.splits)

lemma on_boardD:
  assumes "on_board b p"
  shows "nat (fst p) < length b" "nat (snd p) < length b"
  using assms unfolding on_board_def by linarith+

lemma set_cell_length [simp]: "length (set_cell b x p) = length b"
  by (simp add: set_cell_def)

lemma set_cell_square:
  assumes "square b" "on_board b p"
  shows "square (set_cell b x p)"
proof -
  from assms(2) have v: "nat (snd p) < length b" by (rule on_boardD)
  with assms(1) have "length (b ! nat (snd p)) = length b" by (simp add: square_def)
  then have "length ((b ! nat (snd p))[nat (fst p) := x]) = length b" by simp
  with assms(1) show ?thesis
    unfolding square_def set_cell_def
    by (auto dest!: subsetD[OF set_update_subset_insert])
qed

lemma on_board_set_cell [simp]: "on_board (set_cell b x p) q = on_board b q"
  by (simp add: on_board_def)

lemma cell_set_cell:
  assumes "square b" "on_board b p" "on_board b q"
  shows "cell (set_cell b x p) (fst q) (snd q) = (if q = p then x else cell b (fst q) (snd q))"
proof -
  from assms have vp: "nat (snd p) < length b" and vq: "nat (snd q) < length b"
    and up: "nat (fst p) < length b" by (simp_all add: on_boardD)
  from assms(1) vp have lp: "length (b ! nat (snd p)) = length b" by (simp add: square_def)
  from assms(2,3) have eq: "q = p \<longleftrightarrow> nat (fst q) = nat (fst p) \<and> nat (snd q) = nat (snd p)"
    by (auto simp: on_board_def prod_eq_iff)
  show ?thesis
    using vp vq up lp eq
    by (auto simp: cell_def set_cell_def nth_list_update)
qed

lemma disc_count_set_cell:
  assumes "square b" "on_board b p"
  shows "disc_count (set_cell b x p) + disc_weight (cell b (fst p) (snd p)) = disc_count b + disc_weight x"
proof -
  let ?v = "nat (snd p)" and ?u = "nat (fst p)"
  let ?w = "\<lambda>row. sum_list (map disc_weight row)"
  from assms have v: "?v < length b" and u: "?u < length b" by (simp_all add: on_boardD)
  from assms(1) v have lr: "length (b ! ?v) = length b" by (simp add: square_def)
  have row: "?w ((b ! ?v)[?u := x]) + disc_weight (b ! ?v ! ?u) = ?w (b ! ?v) + disc_weight x"
    using sum_list_upd[of ?u "map disc_weight (b ! ?v)" "disc_weight x"] u lr
    by (simp add: map_update)
  have "disc_count (set_cell b x p) + ?w (b ! ?v) = disc_count b + ?w ((b ! ?v)[?u := x])"
    using sum_list_upd[of ?v "map ?w b" "?w ((b ! ?v)[?u := x])"] v
    by (simp add: disc_count_def set_cell_def map_update)
  with row show ?thesis by (simp add: cell_def)
qed

lemma ray_on_board: "p \<in> set (ray board i j d) \<Longrightarrow> on_board board p"
  by (auto simp: ray_def Let_def on_board_def dest!: set_takeWhileD)

lemma scan_line_cells:
  "p \<in> set (scan_line board player ps line) \<Longrightarrow>
     p \<in> set line \<or> (p \<in> set ps \<and> cell board (fst p) (snd p) \<noteq> 0)"
proof (induction ps arbitrary: line)
  case Nil
  then show ?case by simp
next
  case (Cons q ps)
  obtain u v where q: "q = (u, v)" by (cases q)
  from Cons.prems Cons.IH[of "line @ [(u, v)]"] show ?case
    by (auto simp: q split: if_splits)
qed

lemma scan_line_player:
  "scan_line board player ps line \<noteq> [] \<Longrightarrow> player \<noteq> 0"
proof (induction ps arbitrary: line)
  case Nil
  then show ?case by simp
next
  case (Cons q ps)
  obtain u v where q: "q = (u, v)" by (cases q)
  from Cons.prems Cons.IH[of "line @ [(u, v)]"] show ?case
    by (auto simp: q split: if_splits)
qed

lemma find_lines_cells:
  assumes "p \<in> set (concat (find_lines board i j player))"
  shows "on_board board p \<and> cell board (fst p) (snd p) \<noteq> 0"
proof -
  from assms obtain d where "p \<in> set (scan_line board player (ray board i j d) [])"
    by (auto simp: find_lines_def)
  from scan_line_cells[OF this] show ?thesis
    by (auto dest: ray_on_board)
qed

lemma find_lines_player:
  assumes "find_lines board i j player \<noteq> []"
  shows "player \<noteq> 0"
proof -
  from assms obtain l where "l \<in> set (find_lines board i j player)" by (cases "find_lines board i j player") auto
  then obtain d where "scan_line board player (ray board i j d) [] \<noteq> []"
    by (auto simp: find_lines_def)
  then show ?thesis by (rule scan_line_player)
qed

lemma flips_keep_disc_count:
  assumes "player \<noteq> 0"
  shows "square b \<Longrightarrow> \<forall>p\<in>set ps. on_board b p \<and> cell b (fst p) (snd p) \<noteq> 0 \<Longrightarrow>
         square (foldl (\<lambda>b p. set_cell b player p) b ps) \<and>
         disc_count (foldl (\<lambda>b p. set_cell b player p) b ps) = disc_count b"
proof (induction ps arbitrary: b)
  case Nil
  then show ?case by simp
next
  case (Cons p ps)
  let ?b = "set_cell b player p"
  from Cons.prems have p: "on_board b p" "cell b (fst p) (snd p) \<noteq> 0" by simp_all
  from set_cell_square[OF Cons.prems(1) p(1)] have sq: "square ?b" .
  from disc_count_set_cell[OF Cons.prems(1) p(1), of player] p(2) assms have d: "disc_count ?b = disc_count b"
    by (simp add: disc_weight_def)
  have "\<forall>q\<in>set ps. on_board ?b q \<and> cell ?b (fst q) (snd q) \<noteq> 0"
    using Cons.prems(2) assms by (simp add: cell_set_cell[OF Cons.prems(1) p(1)])
  from Cons.IH[OF sq this] d show ?case by simp
qed

lemma othello_move_legal:
  assumes "m \<in> set (othello_get_possible_moves board player)"
  shows "on_board board m" "cell board (fst m) (snd m) = 0" "find_lines board (fst m) (snd m) player \<noteq> []"
  using assms by (auto simp: othello_get_possible_moves_def Let_def on_board_def)

lemma othello_adds_one_disc:
  assumes "square board" "m \<in> set (othello_get_possible_moves board player)"
  shows "square (othello_play_move board player (fst m) (snd m)) \<and>
         disc_count (othello_play_move board player (fst m) (snd m)) = Suc (disc_count board)"
proof -
  note leg = othello_move_legal[OF assms(2)]
  from find_lines_player[OF leg(3)] have pl: "player \<noteq> 0" .
  let ?b0 = "set_cell board player m"
  from set_cell_square[OF assms(1) leg(1)] have sq: "square ?b0" .
  from disc_count_set_cell[OF assms(1) leg(1), of player] leg(2) pl have d: "disc_count ?b0 = Suc (disc_count board)"
    by (simp add: disc_weight_def)
  have "\<forall>p\<in>set (concat (find_lines board (fst m) (snd m) player)).
          on_board ?b0 p \<and> cell ?b0 (fst p) (snd p) \<noteq> 0"
  proof
    fix p assume "p \<in> set (concat (find_lines board (fst m) (snd m) player))"
    from find_lines_cells[OF this] pl
    show "on_board ?b0 p \<and> cell ?b0 (fst p) (snd p) \<noteq> 0"
      by (simp add: cell_set_cell[OF assms(1) leg(1)])
  qed
  from flips_keep_disc_count[OF pl sq this] d show ?thesis
    by (simp add: othello_play_move_def)
qed

lemma othello_is_adds_one_disc: "adds_one_disc othello square disc_count"
  unfolding adds_one_disc_def
  using othello_adds_one_disc by (simp add: othello_def)

section \<open>Rounding to a float\<close>

lemma round_half_even_of_int [simp]: "round_half_even (of_int k) = k"
  by (simp add: round_half_even_def)

lemma round_half_even_le: "x \<le> of_int k \<Longrightarrow> round_half_even x \<le> k"
proof -
  assume a: "x \<le> of_int k"
  have f: "\<lfloor>x\<rfloor> \<le> k" using a by (simp add: floor_le_iff)
  show ?thesis
  proof (cases "x = of_int k")
    case True
    then show ?thesis by simp
  next
    case False
    with a have "x < of_int k" by simp
    then have "\<lfloor>x\<rfloor> < k" by (simp add: floor_less_iff)
    then show ?thesis by (simp add: round_half_even_def Let_def)
  qed
qed

lemma round_half_even_ge: "of_int k \<le> x \<Longrightarrow> k \<le> round_half_even x"
proof -
  assume "of_int k \<le> x"
  then have "k \<le> \<lfloor>x\<rfloor>" by (simp add: le_floor_iff)
  then show ?thesis by (simp add: round_half_even_def Let_def)
qed

lemma round_half_even_err: "\<bar>of_int (round_half_even x) - x\<bar> \<le> 1 / 2"
proof -
  have "of_int \<lfloor>x\<rfloor> \<le> x" "x < of_int \<lfloor>x\<rfloor> + 1" by linarith+
  then show ?thesis by (auto simp: round_half_even_def Let_def)
qed

lemma pow2_less_cancel: "(2::real) powi a < 2 powi b \<Longrightarrow> a < b"
  by (rule ccontr) (use power_int_increasing[of b a "2::real"] in simp)

lemma pow2_pos [simp]: "0 < (2::real) powi a"
  by (simp add: zero_less_power_int)

lemma exponent_up_bounds: "e \<le> exponent_up k e x \<and> exponent_up k e x \<le> e + int k"
proof (induction k arbitrary: e)
  case 0
  show ?case by simp
next
  case (Suc k)
  from Suc[of "e + 1"] show ?case by simp
qed

lemma exponent_up_le: "2 powi e \<le> x \<Longrightarrow> 2 powi (exponent_up k e x) \<le> x"
  by (induction k arbitrary: e) simp_all

lemma exponent_up_gt: "x < 2 powi (e + int k + 1) \<Longrightarrow> x < 2 powi (exponent_up k e x + 1)"
proof (induction k arbitrary: e)
  case 0
  then show ?case by simp
next
  case (Suc k)
  show ?case
  proof (cases "2 powi (e + 1) \<le> x")
    case True
    from Suc.prems have "x < 2 powi (e + 1 + int k + 1)" by (simp add: algebra_simps)
    from Suc.IH[OF this] True show ?thesis by simp
  next
    case False
    then show ?thesis by simp
  qed
qed

lemma exponent_down_bounds: "e - int k \<le> exponent_down k e x \<and> exponent_down k e x \<le> e"
proof (induction k arbitrary: e)
  case 0
  show ?case by simp
next
  case (Suc k)
  from Suc[of "e - 1"] show ?case by simp
qed

lemma exponent_down_gt: "x < 2 powi (e + 1) \<Longrightarrow> x < 2 powi (exponent_down k e x + 1)"
proof (induction k arbitrary: e)
  case 0
  then show ?case by simp
next
  case (Suc k)
  show ?case
  proof (cases "2 powi e \<le> x")
    case True
    with Suc.prems show ?thesis by simp
  next
    case False
    then have "x < 2 powi (e - 1 + 1)" by simp
    from Suc.IH[OF this] False show ?thesis by simp
  qed
qed

lemma exponent_down_le: "exponent_down k e x = e - int k \<or> 2 powi (exponent_down k e x) \<le> x"
proof (induction k arbitrary: e)
  case 0
  show ?case by simp
next
  case (Suc k)
  from Suc[of "e - 1"] show ?case by auto
qed

lemma exponent_range: "- 1022 \<le> exponent x \<and> exponent x \<le> 1023"
  using exponent_up_bounds[of 0 1023 "\<bar>x\<bar>"] exponent_down_bounds[of "- 1" 1021 "\<bar>x\<bar>"]
  by (simp add: exponent_def)

lemma exponent_gt: "\<bar>x\<bar> < 2 powi 1024 \<Longrightarrow> \<bar>x\<bar> < 2 powi (exponent x + 1)"
  using exponent_up_gt[of "\<bar>x\<bar>" 0 1023] exponent_down_gt[of "\<bar>x\<bar>" "- 1" 1021]
  by (simp add: exponent_def)

lemma exponent_le: "exponent x = - 1022 \<or> 2 powi (exponent x) \<le> \<bar>x\<bar>"
  using exponent_up_le[of 0 "\<bar>x\<bar>" 1023] exponent_down_le[of 1021 "- 1" "\<bar>x\<bar>"]
  by (auto simp: exponent_def)

lemma exponent_upper: "\<bar>x\<bar> < 2 powi (m + 1) \<Longrightarrow> - 1022 \<le> m \<Longrightarrow> exponent x \<le> m"
proof -
  assume a: "\<bar>x\<bar> < 2 powi (m + 1)" and m: "- 1022 \<le> m"
  from exponent_le[of x] show ?thesis
  proof
    assume "exponent x = - 1022"
    with m show ?thesis by simp
  next
    assume "2 powi (exponent x) \<le> \<bar>x\<bar>"
    with a have "(2::real) powi (exponent x) < 2 powi (m + 1)" by simp
    from pow2_less_cancel[OF this] show ?thesis by simp
  qed
qed

lemma exponent_unique:
  assumes "- 1022 \<le> e" "e \<le> 1023" "2 powi e \<le> \<bar>x\<bar>" "\<bar>x\<bar> < 2 powi (e + 1)"
  shows "exponent x = e"
proof -
  from assms(2) have "(2::real) powi (e + 1) \<le> 2 powi 1024"
    by (intro power_int_increasing) simp_all
  with assms(4) have "\<bar>x\<bar> < 2 powi 1024" by simp
  from exponent_gt[OF this] assms(3) have "(2::real) powi e < 2 powi (exponent x + 1)" by simp
  from pow2_less_cancel[OF this] have 1: "e \<le> exponent x" by simp
  from exponent_upper[OF assms(4) assms(1)] 1 show ?thesis by simp
qed

lemma exponent_subnormal: "\<bar>x\<bar> < 2 powi (- 1022) \<Longrightarrow> exponent x = - 1022"
  using exponent_upper[of x "- 1023"] exponent_range[of x]
proof -
  assume a: "\<bar>x\<bar> < 2 powi (- 1022)"
  from exponent_le[of x] show ?thesis
  proof
    assume "2 powi (exponent x) \<le> \<bar>x\<bar>"
    with a have "(2::real) powi (exponent x) < 2 powi (- 1022)" by simp
    from pow2_less_cancel[OF this] exponent_range[of x] show ?thesis by simp
  qed simp
qed

lemma ulp_pos [simp]: "0 < ulp x"
  by (simp add: ulp_def)

lemma ulp_nonneg [simp]: "0 \<le> ulp x"
  using ulp_pos[of x] by linarith

lemma ulp_nonzero [simp]: "ulp x \<noteq> 0"
  using ulp_pos[of x] by linarith

lemma ulp_upper: "\<bar>x\<bar> < 2 powi (m + 1) \<Longrightarrow> - 1022 \<le> m \<Longrightarrow> ulp x \<le> 2 powi (m - 52)"
  unfolding ulp_def using exponent_upper[of x m] by (intro power_int_increasing) simp_all

lemma float_round_err: "\<bar>float_round x - x\<bar> \<le> ulp x / 2"
proof -
  have "float_round x - x = (of_int (round_half_even (x / ulp x)) - x / ulp x) * ulp x"
    using ulp_pos[of x] by (simp add: float_round_def algebra_simps)
  then have "\<bar>float_round x - x\<bar> = \<bar>of_int (round_half_even (x / ulp x)) - x / ulp x\<bar> * ulp x"
    using ulp_pos[of x] by (simp add: abs_mult)
  also have "\<dots> \<le> 1 / 2 * ulp x"
    using round_half_even_err[of "x / ulp x"] ulp_pos[of x] by (intro mult_right_mono) simp_all
  finally show ?thesis by simp
qed

lemma float_round_le_multiple: "x \<le> of_int n * ulp x \<Longrightarrow> float_round x \<le> of_int n * ulp x"
proof -
  assume "x \<le> of_int n * ulp x"
  then have "x / ulp x \<le> of_int n" using ulp_pos[of x] by (simp add: pos_divide_le_eq)
  from round_half_even_le[OF this] have "real_of_int (round_half_even (x / ulp x)) \<le> of_int n" by simp
  then show ?thesis unfolding float_round_def using ulp_pos[of x] by (intro mult_right_mono) simp_all
qed

lemma float_round_ge_multiple: "of_int n * ulp x \<le> x \<Longrightarrow> of_int n * ulp x \<le> float_round x"
proof -
  assume "of_int n * ulp x \<le> x"
  then have "of_int n \<le> x / ulp x" using ulp_pos[of x] by (simp add: pos_le_divide_eq)
  from round_half_even_ge[OF this] have "real_of_int n \<le> of_int (round_half_even (x / ulp x))" by simp
  then show ?thesis unfolding float_round_def using ulp_pos[of x] by (intro mult_right_mono) simp_all
qed

lemma int_multiple_of_ulp:
  assumes "exponent x \<le> 52"
  shows "\<exists>N. real_of_int n = of_int N * ulp x"
proof -
  let ?j = "nat (52 - exponent x)"
  have "(2::real) powi (int ?j) * ulp x = 2 powi (int ?j + (exponent x - 52))"
    unfolding ulp_def by (simp add: power_int_add)
  also have "int ?j + (exponent x - 52) = 0" using assms by simp
  finally have "(2::real) ^ ?j * ulp x = 1"
    by (simp only: power_int_of_nat power_int_0_right)
  then have "real_of_int n = of_int (n * 2 ^ ?j) * ulp x"
    by (simp add: mult.assoc)
  then show ?thesis by blast
qed

lemma float_round_abs_le:
  assumes "\<bar>x\<bar> \<le> of_int n" and "\<bar>x\<bar> < 2 powi 53"
  shows "\<bar>float_round x\<bar> \<le> of_int n"
proof -
  from exponent_upper[of x 52] assms(2) have e: "exponent x \<le> 52" by simp
  from int_multiple_of_ulp[OF e, of n] obtain N where N: "real_of_int n = of_int N * ulp x" by blast
  from assms(1) N have "x \<le> of_int N * ulp x" "of_int (- N) * ulp x \<le> x" by simp_all
  from float_round_le_multiple[OF this(1)] float_round_ge_multiple[OF this(2)] N
  show ?thesis by simp
qed

lemma float_round_0 [simp]: "float_round 0 = 0"
  using round_half_even_of_int[of 0] by (simp add: float_round_def)


lemma round_half_even_abs_le: "\<bar>x\<bar> \<le> of_int n \<Longrightarrow> \<bar>round_half_even x\<bar> \<le> n"
proof -
  assume "\<bar>x\<bar> \<le> of_int n"
  then have "x \<le> of_int n" "of_int (- n) \<le> x" by simp_all
  from round_half_even_le[OF this(1)] round_half_even_ge[OF this(2)] show ?thesis by simp
qed

lemma round_half_even_abs_ge: "of_int n \<le> \<bar>x\<bar> \<Longrightarrow> n \<le> \<bar>round_half_even x\<bar>"
proof (cases "of_int n \<le> x")
  case True
  from round_half_even_ge[OF this] show ?thesis by simp
next
  case False
  assume "of_int n \<le> \<bar>x\<bar>"
  with False have "x \<le> of_int (- n)" by simp
  from round_half_even_le[OF this] show ?thesis by simp
qed

lemma exponent_lower: "2 powi e \<le> \<bar>y\<bar> \<Longrightarrow> \<bar>y\<bar> < 2 powi 1024 \<Longrightarrow> e \<le> exponent y"
proof -
  assume a: "2 powi e \<le> \<bar>y\<bar>" and "\<bar>y\<bar> < 2 powi 1024"
  from exponent_gt[OF this(2)] a have "(2::real) powi e < 2 powi (exponent y + 1)" by simp
  from pow2_less_cancel[OF this] show ?thesis by simp
qed

lemma float_round_multiple: "x = of_int K * ulp x \<Longrightarrow> float_round x = x"
proof -
  assume a: "x = of_int K * ulp x"
  then have "x / ulp x = of_int K" by (simp add: field_simps)
  then show ?thesis using a by (simp add: float_round_def)
qed

lemma float_round_idem:
  assumes "\<bar>x\<bar> < 2 powi 1023"
  shows "float_round (float_round x) = float_round x"
proof -
  define e where "e = exponent x"
  define u where "u = ulp x"
  define k where "k = round_half_even (x / u)"
  define y where "y = float_round x"
  have u: "u = 2 powi (e - 52)" "0 < u" by (simp_all add: u_def e_def ulp_def)
  have y: "y = of_int k * u" by (simp add: y_def k_def u_def float_round_def)
  have ay: "\<bar>y\<bar> = of_int \<bar>k\<bar> * u" using u(2) by (simp add: y abs_mult)
  have e: "- 1022 \<le> e" "e \<le> 1022"
    using exponent_range[of x] exponent_upper[of x 1022] assms by (simp_all add: e_def)
  have "(2::real) powi 1023 \<le> 2 powi 1024" by (intro power_int_increasing) simp_all
  with assms have "\<bar>x\<bar> < 2 powi 1024" by simp
  from exponent_gt[OF this] have xlt: "\<bar>x\<bar> < 2 powi (e + 1)" by (simp add: e_def)
  have p53: "(2::real) powi (e + 1) = 2 ^ 53 * u"
  proof -
    have "e + 1 = 53 + (e - 52)" by simp
    then have "(2::real) powi (e + 1) = 2 powi (53 + (e - 52))" by (rule arg_cong)
    also have "\<dots> = 2 powi 53 * 2 powi (e - 52)" by (rule power_int_add) simp
    finally show ?thesis by (simp add: u)
  qed
  have p52: "(2::real) powi e = 2 ^ 52 * u"
  proof -
    have "e = 52 + (e - 52)" by simp
    then have "(2::real) powi e = 2 powi (52 + (e - 52))" by (rule arg_cong)
    also have "\<dots> = 2 powi 52 * 2 powi (e - 52)" by (rule power_int_add) simp
    finally show ?thesis by (simp add: u)
  qed
  from xlt p53 u(2) have "\<bar>x / u\<bar> \<le> of_int (2 ^ 53)"
    by (simp add: field_simps)
  from round_half_even_abs_le[OF this] have k53: "\<bar>k\<bar> \<le> 2 ^ 53" by (simp add: k_def)
  have "\<exists>K. y = of_int K * ulp y"
  proof (cases "\<bar>k\<bar> = 2 ^ 53")
    case True
    then have ay2: "\<bar>y\<bar> = 2 powi (e + 1)" by (simp add: ay p53)
    have "(2::real) powi (e + 1) < 2 powi (e + 1 + 1)" by (intro power_int_strict_increasing) simp_all
    with ay2 have "exponent y = e + 1"
      using e by (intro exponent_unique) simp_all
    then have uy: "ulp y = 2 * u"
      using power_int_add_1'[of "2::real" "e - 52"] by (simp add: ulp_def u algebra_simps)
    from True have "k = 2 ^ 53 \<or> k = - (2 ^ 53)" by linarith
    then have "even k" by auto
    then have "k = 2 * (k div 2)" by simp
    then have "real_of_int k = 2 * of_int (k div 2)" by (metis of_int_mult of_int_numeral)
    then have "of_int k * u = of_int (k div 2) * (2 * u)" by simp
    then have "y = of_int (k div 2) * ulp y" by (simp only: y[symmetric] uy[symmetric])
    then show ?thesis by blast
  next
    case False
    with k53 have klt: "\<bar>k\<bar> < 2 ^ 53" by simp
    then have "real_of_int \<bar>k\<bar> < 2 ^ 53" by (metis of_int_less_iff of_int_numeral of_int_power)
    then have ylt: "\<bar>y\<bar> < 2 powi (e + 1)" using u(2) by (simp add: ay p53)
    from exponent_upper[OF ylt e(1)] have le: "exponent y \<le> e" .
    have "e \<le> exponent y"
    proof (cases "2 powi e \<le> \<bar>x\<bar>")
      case True
      with p52 u(2) have "of_int (2 ^ 52) \<le> \<bar>x / u\<bar>" by (simp add: field_simps)
      from round_half_even_abs_ge[OF this] have "2 ^ 52 \<le> \<bar>k\<bar>" by (simp add: k_def)
      then have "(2::real) ^ 52 \<le> of_int \<bar>k\<bar>" by (metis of_int_le_iff of_int_numeral of_int_power)
      then have yge: "2 powi e \<le> \<bar>y\<bar>" using u(2) by (simp add: ay p52)
      have "(2::real) powi (e + 1) \<le> 2 powi 1024" using e by (intro power_int_increasing) simp_all
      with ylt have "\<bar>y\<bar> < 2 powi 1024" by simp
      from exponent_lower[OF yge this] show ?thesis .
    next
      case False
      with exponent_le[of x] have "e = - 1022" by (simp add: e_def)
      with exponent_range[of y] show ?thesis by simp
    qed
    with le have "exponent y = e" by simp
    then have "ulp y = u" by (simp add: ulp_def u)
    with y have "y = of_int k * ulp y" by (simp only:)
    then show ?thesis by blast
  qed
  then obtain K where "y = of_int K * ulp y" by blast
  from float_round_multiple[OF this] show ?thesis by (simp add: y_def)
qed

subsection \<open>The components of the heuristic in floating point\<close>

lemma pow2_nat: "(2::real) powi int n = 2 ^ n"
  by (rule power_int_of_nat)

lemma float_round_abs_le_small:
  assumes "\<bar>x\<bar> \<le> of_int n" and "\<bar>x\<bar> < 2 ^ 53"
  shows "\<bar>float_round x\<bar> \<le> of_int n"
  using float_round_abs_le[OF assms(1)] assms(2) pow2_nat[of 53] by simp

lemma float_round_idem_small:
  assumes "\<bar>x\<bar> < 2 ^ 53"
  shows "float_round (float_round x) = float_round x"
proof -
  have "(2::real) powi 53 \<le> 2 powi 1023" by (intro power_int_increasing) simp_all
  with assms pow2_nat[of 53] have "\<bar>x\<bar> < 2 powi 1023" by simp
  then show ?thesis by (rule float_round_idem)
qed

lemma float_round_err_small:
  assumes "\<bar>x\<bar> < 2 ^ Suc m"
  shows "\<bar>float_round x - x\<bar> \<le> 2 ^ m / 2 ^ 53"
proof -
  from assms pow2_nat[of "Suc m"] have "\<bar>x\<bar> < 2 powi (int m + 1)" by (simp add: add.commute)
  from ulp_upper[OF this] have "ulp x \<le> 2 powi (int m - 52)" by simp
  also have "(2::real) powi (int m - 52) = 2 powi int m * 2 powi (- 52)"
    using power_int_add[of "2::real" "int m" "- 52"] by simp
  also have "\<dots> = 2 ^ m / 2 ^ 52"
    using pow2_nat[of 52] by (simp add: pow2_nat power_int_minus field_simps)
  finally have "ulp x / 2 \<le> 2 ^ m / 2 ^ 53" by simp
  with float_round_err[of x] show ?thesis by linarith
qed

lemma quotient_abs_le:
  assumes "a + b \<noteq> 0"
  shows "\<bar>real_of_int (int a - int b) / real_of_int (int a + int b)\<bar> \<le> 1"
proof -
  define n where "n = real_of_int (int a - int b)"
  define d where "d = real_of_int (int a + int b)"
  from assms have "0 < a + b" by simp
  then have "0 < real (a + b)" by (simp only: of_nat_0_less_iff)
  then have d: "0 < d" by (simp add: d_def)
  have "\<bar>n\<bar> \<le> d" by (simp add: n_def d_def)
  with d have "\<bar>n / d\<bar> \<le> 1" by (simp add: abs_divide)
  then show ?thesis by (simp only: n_def d_def)
qed

lemma quotient_exact:
  assumes "a + b \<noteq> 0"
  shows "100 * (real_of_int (int a - int b) / real_of_int (int a + int b)) = ratio a b"
  using assms by (simp add: ratio_def)

lemma float_div_abs_le:
  assumes "a + b \<noteq> 0"
  shows "\<bar>float_div (int a - int b) (int a + int b)\<bar> \<le> 1"
  using float_round_abs_le_small[of "real_of_int (int a - int b) / real_of_int (int a + int b)" 1]
        quotient_abs_le[OF assms]
  by (simp add: float_div_def del: of_int_add of_int_diff)

lemma float_div_err:
  assumes "a + b \<noteq> 0"
  shows "\<bar>float_div (int a - int b) (int a + int b)
           - real_of_int (int a - int b) / real_of_int (int a + int b)\<bar> \<le> 1 / 2 ^ 53"
  using float_round_err_small[of "real_of_int (int a - int b) / real_of_int (int a + int b)" 0]
        quotient_abs_le[OF assms]
  by (simp add: float_div_def del: of_int_add of_int_diff)

lemma component_zero: "a + b = 0 \<Longrightarrow> component a b = 0"
  by (simp add: component_def)

lemma component_abs_le: "\<bar>component a b\<bar> \<le> 100"
proof (cases "a + b = 0")
  case True
  then show ?thesis by (simp add: component_def)
next
  case False
  let ?f = "float_div (int a - int b) (int a + int b)"
  from float_div_abs_le[OF False] have "\<bar>100 * ?f\<bar> \<le> 100" by simp
  with float_round_abs_le_small[of "100 * ?f" 100] have "\<bar>float_round (100 * ?f)\<bar> \<le> 100" by simp
  with False show ?thesis by (simp add: component_def float_mul_def)
qed

lemma component_err: "\<bar>component a b - ratio a b\<bar> \<le> 41 / 2 ^ 51"
proof (cases "a + b = 0")
  case True
  then show ?thesis by (simp add: component_def ratio_def)
next
  case False
  define q where "q = real_of_int (int a - int b) / real_of_int (int a + int b)"
  define f where "f = float_div (int a - int b) (int a + int b)"
  define t where "t = float_round (100 * f)"
  from float_div_abs_le[OF False] have "\<bar>100 * f\<bar> < 2 ^ Suc 6" by (simp add: f_def)
  from float_round_err_small[OF this] have 1: "\<bar>t - 100 * f\<bar> \<le> 64 / 9007199254740992"
    by (simp add: t_def)
  from float_div_err[OF False] have 2: "\<bar>f - q\<bar> \<le> 1 / 9007199254740992"
    by (simp add: f_def q_def del: of_int_add of_int_diff)
  from 1 2 have "\<bar>t - 100 * q\<bar> \<le> 41 / 2251799813685248" by linarith
  moreover have "component a b = t" using False by (simp only: component_def float_mul_def t_def f_def if_False)
  moreover have "ratio a b = 100 * q" using quotient_exact[OF False] by (simp only: q_def)
  ultimately show ?thesis by simp
qed

lemma component_ok: "component_ok a b"
  unfolding component_ok_def
  using component_zero[of a b] component_abs_le[of a b] component_err[of a b] by (simp add: abs_le_iff)

lemma component_float: "float_round (component a b) = component a b"
proof (cases "a + b = 0")
  case True
  then show ?thesis by (simp add: component_def)
next
  case False
  let ?f = "float_div (int a - int b) (int a + int b)"
  from float_div_abs_le[OF False] have "\<bar>100 * ?f\<bar> < 2 ^ 53" by simp
  from float_round_idem_small[OF this] False show ?thesis by (simp add: component_def float_mul_def)
qed

lemma component_scale:
  assumes "0 < m"
  shows "component (m * a) (m * b) = component a b"
proof -
  have "real_of_int (int (m * a) - int (m * b)) / real_of_int (int (m * a) + int (m * b))
          = (real m * real_of_int (int a - int b)) / (real m * real_of_int (int a + int b))"
    by (simp add: algebra_simps)
  also have "\<dots> = real_of_int (int a - int b) / real_of_int (int a + int b)"
    using assms by simp
  finally show ?thesis
    using assms by (simp add: component_def float_div_def del: of_int_add of_int_diff)
qed

lemma float_add_0: "float_add 0 (component a b) = component a b"
  by (simp add: float_add_def component_float)

lemma float_add_abs_le:
  assumes "\<bar>x\<bar> \<le> of_int m" "\<bar>y\<bar> \<le> of_int n" "m + n < 2 ^ 53"
  shows "\<bar>float_add x y\<bar> \<le> of_int (m + n)"
proof -
  from assms(1,2) have 1: "\<bar>x + y\<bar> \<le> of_int (m + n)" by simp
  from assms(3) have "real_of_int (m + n) < 2 ^ 53" by (metis of_int_less_iff of_int_numeral of_int_power)
  with 1 have "\<bar>x + y\<bar> < 2 ^ 53" by linarith
  from float_round_abs_le_small[OF 1 this] show ?thesis by (simp add: float_add_def)
qed

lemma float_add_float:
  assumes "\<bar>x\<bar> \<le> 1000" "\<bar>y\<bar> \<le> 1000"
  shows "float_round (float_add x y) = float_add x y"
proof -
  from assms have "\<bar>x + y\<bar> < 2 ^ 53" by simp
  from float_round_idem_small[OF this] show ?thesis by (simp add: float_add_def)
qed

text \<open>Adding a component that is absent (zero denominator) or present.\<close>

lemma add_component:
  assumes "float_round r = r"
  shows "(if int a + int b \<noteq> 0
          then float_add r (float_mul 100 (float_div (int a - int b) (int a + int b)))
          else r) = float_add r (component a b)"
  using assms by (simp add: component_def float_add_def)

lemma sum_err:
  "\<bar>float_add (float_add (component a b) (component c d)) (component e f)
      - (ratio a b + ratio c d + ratio e f)\<bar> \<le> 1 / 2 ^ 43"
proof -
  define x where "x = component a b"
  define y where "y = component c d"
  define z where "z = component e f"
  define s where "s = float_add x y"
  define r where "r = float_add s z"
  have ax: "\<bar>x\<bar> \<le> 100" and ay: "\<bar>y\<bar> \<le> 100" and az: "\<bar>z\<bar> \<le> 100"
    using component_abs_le by (simp_all add: x_def y_def z_def)
  from ax ay have 1: "\<bar>x + y\<bar> < 2 ^ Suc 7" by simp
  have as: "\<bar>s\<bar> \<le> 200"
    using float_add_abs_le[of x 100 y 100] ax ay by (simp add: s_def)
  with az have 2: "\<bar>s + z\<bar> < 2 ^ Suc 8" by simp
  from float_round_err_small[OF 1] have e1: "\<bar>s - (x + y)\<bar> \<le> 128 / 9007199254740992"
    by (simp add: s_def float_add_def)
  from float_round_err_small[OF 2] have e2: "\<bar>r - (s + z)\<bar> \<le> 256 / 9007199254740992"
    by (simp add: r_def float_add_def)
  have ex: "\<bar>x - ratio a b\<bar> \<le> 41 / 2251799813685248"
    and ey: "\<bar>y - ratio c d\<bar> \<le> 41 / 2251799813685248"
    and ez: "\<bar>z - ratio e f\<bar> \<le> 41 / 2251799813685248"
    using component_err by (simp_all add: x_def y_def z_def)
  from e1 e2 ex ey ez have "\<bar>r - (ratio a b + ratio c d + ratio e f)\<bar> \<le> 1 / 8796093022208"
    by linarith
  then show ?thesis by (simp add: r_def s_def x_def y_def z_def)
qed

section \<open>The counts of the heuristic\<close>

lemma set_grid: "set (grid board) = {p. on_board board p}"
  by (auto simp: grid_def on_board_def)

lemma distinct_grid: "distinct (grid board)"
  unfolding grid_def
  by (rule distinct_concat) (auto simp: distinct_map inj_on_def)

lemma board_get_on_board:
  assumes "square board" "on_board board p"
  shows "board_get board (fst p) (snd p) = Some (piece_at board p)"
proof -
  from assms(2) have i: "0 \<le> fst p" "fst p < int (length board)" and j: "0 \<le> snd p" "snd p < int (length board)"
    by (simp_all add: on_board_def)
  from i have "nat (fst p) < length board" by linarith
  with assms(1) have "length (board ! nat (fst p)) = length board" by (simp add: square_def)
  with i j show ?thesis
    by (simp add: board_get_def py_get_def piece_at_def Let_def)
qed

lemma check_cells_eq:
  assumes "square board"
  shows "\<forall>p\<in>set ps. on_board board p \<Longrightarrow> check_cells board ps = Some (\<exists>p\<in>set ps. piece_at board p = 0)"
proof (induction ps)
  case Nil
  show ?case by simp
next
  case (Cons q ps)
  obtain i j where q: "q = (i, j)" by (cases q)
  from Cons.prems have "on_board board (i, j)" by (simp add: q)
  from board_get_on_board[OF assms this] Cons show ?case
    by (simp add: q)
qed

lemma check_empty_eq:
  assumes "square board"
  shows "check_empty board p = Some (empty_neighbour board p)"
proof -
  let ?n = "int (length board)"
  let ?ps = "concat (map (\<lambda>i. if 0 \<le> i \<and> i \<le> ?n - 1
                               then filter (\<lambda>(i, j). (0 \<le> j \<and> j \<le> ?n - 1) \<and> (i, j) \<noteq> p)
                                      (map (\<lambda>j. (i, j)) [snd p - 1..snd p + 1])
                               else [])
                        [fst p - 1..fst p + 1])"
  have s: "set ?ps = {q. on_board board q \<and> q \<noteq> p \<and> \<bar>fst q - fst p\<bar> \<le> 1 \<and> \<bar>snd q - snd p\<bar> \<le> 1}"
    by (auto simp: on_board_def abs_le_iff image_iff split: if_splits)
  then have "\<forall>q\<in>set ?ps. on_board board q" by blast
  from check_cells_eq[OF assms this] have "check_cells board ?ps = Some (\<exists>q\<in>set ?ps. piece_at board q = 0)" .
  moreover have "(\<exists>q\<in>set ?ps. piece_at board q = 0) = empty_neighbour board p"
    unfolding s empty_neighbour_def set_grid by blast
  ultimately show ?thesis
    by (simp add: check_empty_def Let_def)
qed

lemma count_cells_eq:
  assumes "square board"
  shows "\<forall>p\<in>set ps. on_board board p \<Longrightarrow>
         count_cells board color ps t
           = Some (t + int (length (filter (\<lambda>p. piece_at board p = color \<and> empty_neighbour board p) ps)))"
proof (induction ps arbitrary: t)
  case Nil
  show ?case by simp
next
  case (Cons q ps)
  obtain i j where q: "q = (i, j)" by (cases q)
  from Cons.prems have "on_board board (i, j)" by (simp add: q)
  from board_get_on_board[OF assms this] Cons.prems Cons.IH show ?case
    by (simp add: q check_empty_eq[OF assms])
qed

lemma count_empty_eq:
  assumes "square board"
  shows "count_empty board color = Some (int (potential board color))"
proof -
  have "\<forall>p\<in>set (grid board). on_board board p" by (simp add: set_grid)
  from count_cells_eq[OF assms this, of color 0]
  have "count_empty board color
          = Some (int (length (filter (\<lambda>p. piece_at board p = color \<and> empty_neighbour board p) (grid board))))"
    by (simp add: count_empty_def grid_def Let_def)
  moreover have "length (filter (\<lambda>p. piece_at board p = color \<and> empty_neighbour board p) (grid board))
                   = potential board color"
    unfolding potential_def
    using distinct_card[OF distinct_filter[OF distinct_grid], of "\<lambda>p. piece_at board p = color \<and> empty_neighbour board p" board]
    by simp
  ultimately show ?thesis by simp
qed

lemma count_corners_eq:
  assumes "square board" "color \<noteq> opp"
  shows "\<forall>p\<in>set cs. on_board board p \<Longrightarrow>
         count_corners board color opp cs (a, b)
           = Some (a + int (length (filter (\<lambda>p. piece_at board p = color) cs)),
                   b + int (length (filter (\<lambda>p. piece_at board p = opp) cs)))"
proof (induction cs arbitrary: a b)
  case Nil
  show ?case by simp
next
  case (Cons q cs)
  from Cons.prems have "on_board board q" by simp
  from board_get_on_board[OF assms(1) this] Cons.prems Cons.IH assms(2) show ?case
    by simp
qed

lemma corner_list_on_board: "board \<noteq> [] \<Longrightarrow> \<forall>p\<in>set (corner_list board). on_board board p"
  by (cases board) (auto simp: corner_list_def on_board_def Let_def)

lemma set_corner_list: "set (corner_list board) = corner_squares board"
  by (auto simp: corner_list_def corner_squares_def Let_def)

lemma corner_list_count:
  assumes "board \<noteq> []"
  shows "\<exists>m>0. \<forall>col. length (filter (\<lambda>p. piece_at board p = col) (corner_list board)) = m * corner_count board col"
proof (cases "length board = 1")
  case True
  then have cl: "corner_list board = [(0, 0), (0, 0), (0, 0), (0, 0)]"
    and cs: "corner_squares board = {(0, 0)}"
    by (simp_all add: corner_list_def corner_squares_def)
  have "\<forall>col. length (filter (\<lambda>p. piece_at board p = col) (corner_list board)) = 4 * corner_count board col"
  proof
    fix col
    have "{p \<in> {(0::int, 0::int)}. piece_at board p = col} = (if piece_at board (0, 0) = col then {(0, 0)} else {})"
      by auto
    then show "length (filter (\<lambda>p. piece_at board p = col) (corner_list board)) = 4 * corner_count board col"
      by (simp add: cl cs corner_count_def)
  qed
  then show ?thesis by (intro exI[of _ 4]) simp
next
  case False
  moreover from assms have "length board \<noteq> 0" by simp
  ultimately have "2 \<le> length board" by linarith
  then have d: "distinct (corner_list board)"
    by (auto simp: corner_list_def Let_def)
  have "\<forall>col. length (filter (\<lambda>p. piece_at board p = col) (corner_list board)) = 1 * corner_count board col"
  proof
    fix col
    from distinct_card[OF distinct_filter[OF d], of "\<lambda>p. piece_at board p = col"]
    show "length (filter (\<lambda>p. piece_at board p = col) (corner_list board)) = 1 * corner_count board col"
      by (simp add: corner_count_def set_corner_list)
  qed
  then show ?thesis by (intro exI[of _ 1]) simp
qed

lemma other_neq [simp]: "other color \<noteq> color" "color \<noteq> other color"
  by (auto simp: other_def)

subsection \<open>Unbounded depth: the search returns when every move adds a disc\<close>

lemma minimax_min_loop_returns_legal:
  assumes "\<forall>c m. m \<in> set (get_possible_moves lib b opp) \<longrightarrow>
             minimax_max_node lib f c (play_move lib b opp (fst m) (snd m)) col (lm - 1) ca \<noteq> None"
  shows "set ms \<subseteq> set (get_possible_moves lib b opp) \<Longrightarrow>
         minimax_min_loop lib f c b col lm ca opp ms best \<noteq> None"
proof (induction ms arbitrary: c best)
  case Nil
  show ?case by simp
next
  case (Cons m ms)
  from Cons.prems have "m \<in> set (get_possible_moves lib b opp)" by simp
  with assms have "minimax_max_node lib f c (play_move lib b opp (fst m) (snd m)) col (lm - 1) ca \<noteq> None" by blast
  then obtain r1 where
    "minimax_max_node lib f c (play_move lib b opp (fst m) (snd m)) col (lm - 1) ca = Some r1"
    by blast
  with Cons show ?case
    by (simp add: minimax_min_loop_Cons del: not_None_eq)
qed

lemma minimax_max_loop_returns_legal:
  assumes "\<forall>c m. m \<in> set (get_possible_moves lib b col) \<longrightarrow>
             minimax_min_node lib f c (play_move lib b col (fst m) (snd m)) col (lm - 1) ca \<noteq> None"
  shows "set ms \<subseteq> set (get_possible_moves lib b col) \<Longrightarrow>
         minimax_max_loop lib f c b col lm ca ms best \<noteq> None"
proof (induction ms arbitrary: c best)
  case Nil
  show ?case by simp
next
  case (Cons m ms)
  from Cons.prems have "m \<in> set (get_possible_moves lib b col)" by simp
  with assms have "minimax_min_node lib f c (play_move lib b col (fst m) (snd m)) col (lm - 1) ca \<noteq> None" by blast
  then obtain r1 where
    "minimax_min_node lib f c (play_move lib b col (fst m) (snd m)) col (lm - 1) ca = Some r1"
    by blast
  with Cons show ?case
    by (simp add: minimax_max_loop_Cons del: not_None_eq)
qed

lemma minimax_returns_game:
  assumes lib: "adds_one_disc lib ok discs" and cap: "\<forall>b. ok b \<longrightarrow> discs b \<le> cap"
  shows "ok b \<Longrightarrow> cap < f + discs b \<Longrightarrow>
     minimax_min_node lib f c b col lm ca \<noteq> None \<and>
     minimax_max_node lib f c b col lm ca \<noteq> None"
proof (induction f arbitrary: lm c b)
  case 0
  with cap show ?case by (auto simp: not_less[symmetric])
next
  case (Suc f)
  have ch: "ok (play_move lib b p (fst m) (snd m)) \<and> cap < f + discs (play_move lib b p (fst m) (snd m))"
    if "m \<in> set (get_possible_moves lib b p)" for m p
    using lib that Suc.prems unfolding adds_one_disc_def by auto
  have mn: "\<forall>c m. m \<in> set (get_possible_moves lib b col) \<longrightarrow>
             minimax_min_node lib f c (play_move lib b col (fst m) (snd m)) col (lm - 1) ca \<noteq> None"
    using Suc.IH ch by blast
  have mx: "\<forall>c m. m \<in> set (get_possible_moves lib b (other col)) \<longrightarrow>
             minimax_max_node lib f c (play_move lib b (other col) (fst m) (snd m)) col (lm - 1) ca \<noteq> None"
    using Suc.IH ch by blast
  from minimax_min_loop_returns_legal[OF mx subset_refl] obtain x where
    X: "minimax_min_loop lib f c b col lm ca (other col) (get_possible_moves lib b (other col)) (None, PosInf) = Some x"
    by blast
  from minimax_max_loop_returns_legal[OF mn subset_refl] obtain y where
    Y: "minimax_max_loop lib f c b col lm ca (get_possible_moves lib b col) (None, NegInf) = Some y"
    by blast
  show ?case
    unfolding minimax_min_node_unfold minimax_max_node_unfold
    by (simp add: X Y del: not_None_eq split: option.splits)
qed

lemma alphabeta_min_loop_returns_legal:
  assumes "\<forall>c s alpha beta. s \<in> S \<longrightarrow>
             alphabeta_max_node lib f c (fst s) col alpha beta (lm - 1) ca ord \<noteq> None"
  shows "set ss \<subseteq> S \<Longrightarrow> alphabeta_min_loop lib f c col alpha beta lm ca ord ss best \<noteq> None"
proof (induction ss arbitrary: c beta best)
  case Nil
  show ?case by simp
next
  case (Cons s ss)
  from Cons.prems have "s \<in> S" by simp
  with assms have "alphabeta_max_node lib f c (fst s) col alpha beta (lm - 1) ca ord \<noteq> None" by blast
  then obtain r1 where
    "alphabeta_max_node lib f c (fst s) col alpha beta (lm - 1) ca ord = Some r1"
    by blast
  with Cons show ?case
    by (simp add: alphabeta_min_loop_Cons del: not_None_eq)
qed

lemma alphabeta_max_loop_returns_legal:
  assumes "\<forall>c s alpha beta. s \<in> S \<longrightarrow>
             alphabeta_min_node lib f c (fst s) col alpha beta (lm - 1) ca ord \<noteq> None"
  shows "set ss \<subseteq> S \<Longrightarrow> alphabeta_max_loop lib f c col alpha beta lm ca ord ss best \<noteq> None"
proof (induction ss arbitrary: c alpha best)
  case Nil
  show ?case by simp
next
  case (Cons s ss)
  from Cons.prems have "s \<in> S" by simp
  with assms have "alphabeta_min_node lib f c (fst s) col alpha beta (lm - 1) ca ord \<noteq> None" by blast
  then obtain r1 where
    "alphabeta_min_node lib f c (fst s) col alpha beta (lm - 1) ca ord = Some r1"
    by blast
  with Cons show ?case
    by (simp add: alphabeta_max_loop_Cons del: not_None_eq)
qed

lemma alphabeta_returns_game:
  assumes lib: "adds_one_disc lib ok discs" and cap: "\<forall>b. ok b \<longrightarrow> discs b \<le> cap"
  shows "ok b \<Longrightarrow> cap < f + discs b \<Longrightarrow>
     alphabeta_min_node lib f c b col alpha beta lm ca ord \<noteq> None \<and>
     alphabeta_max_node lib f c b col alpha beta lm ca ord \<noteq> None"
proof (induction f arbitrary: lm c b alpha beta)
  case 0
  with cap show ?case by (auto simp: not_less[symmetric])
next
  case (Suc f)
  have ch: "ok (play_move lib b p (fst m) (snd m)) \<and> cap < f + discs (play_move lib b p (fst m) (snd m))"
    if "m \<in> set (get_possible_moves lib b p)" for m p
    using lib that Suc.prems unfolding adds_one_disc_def by auto
  have mn: "\<forall>c s alpha beta. s \<in> set (max_successors lib b col ord) \<longrightarrow>
             alphabeta_min_node lib f c (fst s) col alpha beta (lm - 1) ca ord \<noteq> None"
  proof (intro allI impI)
    fix c s alpha beta assume "s \<in> set (max_successors lib b col ord)"
    then obtain m where m: "m \<in> set (get_possible_moves lib b col)"
      and s: "fst s = play_move lib b col (fst m) (snd m)"
      unfolding set_max_successors by force
    from ch[OF m] Suc.IH[of "fst s" c alpha beta "lm - 1"] s
    show "alphabeta_min_node lib f c (fst s) col alpha beta (lm - 1) ca ord \<noteq> None"
      by (simp del: not_None_eq)
  qed
  have mx: "\<forall>c s alpha beta. s \<in> set (min_successors lib b col ord) \<longrightarrow>
             alphabeta_max_node lib f c (fst s) col alpha beta (lm - 1) ca ord \<noteq> None"
  proof (intro allI impI)
    fix c s alpha beta assume "s \<in> set (min_successors lib b col ord)"
    then obtain m where m: "m \<in> set (get_possible_moves lib b (other col))"
      and s: "fst s = play_move lib b (other col) (fst m) (snd m)"
      unfolding set_min_successors by force
    from ch[OF m] Suc.IH[of "fst s" c alpha beta "lm - 1"] s
    show "alphabeta_max_node lib f c (fst s) col alpha beta (lm - 1) ca ord \<noteq> None"
      by (simp del: not_None_eq)
  qed
  from alphabeta_min_loop_returns_legal[OF mx subset_refl] obtain x where
    X: "alphabeta_min_loop lib f c col alpha beta lm ca ord (min_successors lib b col ord) (None, PosInf) = Some x"
    by blast
  from alphabeta_max_loop_returns_legal[OF mn subset_refl] obtain y where
    Y: "alphabeta_max_loop lib f c col alpha beta lm ca ord (max_successors lib b col ord) (None, NegInf) = Some y"
    by blast
  show ?case
    unfolding alphabeta_min_node_unfold alphabeta_max_node_unfold
    by (simp add: X Y del: not_None_eq split: option.splits)
qed

lemma disc_count_capacity:
  assumes "square board"
  shows "disc_count board \<le> length board * length board"
proof -
  have row: "sum_list (map disc_weight row) \<le> length row" for row
    by (induction row) (auto simp: disc_weight_def)
  have "sum_list (map (\<lambda>row. sum_list (map disc_weight row)) rows) \<le> length rows * n"
    if "\<forall>row\<in>set rows. length row = n" for rows n
    using that
  proof (induction rows)
    case Nil
    show ?case by simp
  next
    case (Cons r rows)
    from Cons.prems have "sum_list (map disc_weight r) \<le> n" using row[of r] by simp
    with Cons show ?case by simp
  qed
  with assms show ?thesis
    by (simp add: disc_count_def square_def)
qed

lemma othello_play_move_length: "length (othello_play_move board player i j) = length board"
proof -
  have "length (foldl (\<lambda>b p. set_cell b player p) b ps) = length b" for b ps
    by (induction ps arbitrary: b) simp_all
  then show ?thesis by (simp add: othello_play_move_def)
qed

lemma othello_keeps_size: "adds_one_disc othello (board_of_size n) disc_count"
  unfolding adds_one_disc_def board_of_size_def
  using othello_adds_one_disc by (simp add: othello_def othello_play_move_length)

lemma board_of_size_capacity: "capacity (board_of_size n) disc_count (n * n)"
  using disc_count_capacity by (auto simp: board_of_size_def capacity_def)

section \<open>The claims\<close>

text \<open>
  C1, as the code has it: without caching, the alpha-beta max node started with the full
  window and the minimax max node started with the same remaining depth compute the same
  value, whatever the ordering flag; whenever the exhaustive search returns, so does the
  pruned one.  The exhaustive search returns with a remaining depth of at least 0 and a
  recursion bound above it, and, whatever the remaining depth (a negative one is never
  exhausted), in a game in which every move adds one disc to a board of bounded capacity,
  with a recursion bound above the number of squares still to fill.
\<close>

theorem alphabeta_equals_minimax_without_caching:
  "(minimax_max_node lib fuel cache board color limit 0 = Some ((m, v), c') \<longrightarrow>
      (\<exists>m'. alphabeta_max_node lib fuel cache board color NegInf PosInf limit 0 ordering'
               = Some ((m', v), cache))) \<and>
   (0 \<le> limit \<and> nat limit < fuel \<longrightarrow> minimax_max_node lib fuel cache board color limit 0 \<noteq> None) \<and>
   (adds_one_disc lib ok discs \<and> ok board \<and> capacity ok discs cap \<and> cap < fuel + discs board \<longrightarrow>
      minimax_max_node lib fuel cache board color limit 0 \<noteq> None)"
proof (intro conjI impI)
  assume "minimax_max_node lib fuel cache board color limit 0 = Some ((m, v), c')"
  from alphabeta_value_is_minimax_value[OF this, of ordering']
  show "\<exists>m'. alphabeta_max_node lib fuel cache board color NegInf PosInf limit 0 ordering' = Some ((m', v), cache)"
    by simp
next
  assume "0 \<le> limit \<and> nat limit < fuel"
  then show "minimax_max_node lib fuel cache board color limit 0 \<noteq> None"
    using minimax_returns[of limit fuel lib cache board color 0] by simp
next
  assume a: "adds_one_disc lib ok discs \<and> ok board \<and> capacity ok discs cap \<and> cap < fuel + discs board"
  then have "adds_one_disc lib ok discs" "\<forall>b. ok b \<longrightarrow> discs b \<le> cap" "ok board" "cap < fuel + discs board"
    by (simp_all add: capacity_def)
  from minimax_returns_game[OF this, of cache color limit 0]
  show "minimax_max_node lib fuel cache board color limit 0 \<noteq> None"
    by blast
qed

theorem alphabeta_equals_minimax_without_caching_witness:
  "minimax_max_node othello 5 Map.empty [[1, 1, 0, 0], [2, 0, 0, 1], [0, 1, 1, 2], [2, 1, 2, 2]] 1 4 0
     = Some ((Some (0, 2), Fin (- 3)), Map.empty) \<and>
   (\<exists>m'. alphabeta_max_node othello 5 Map.empty [[1, 1, 0, 0], [2, 0, 0, 1], [0, 1, 1, 2], [2, 1, 2, 2]] 1
            NegInf PosInf 4 0 1 = Some ((m', Fin (- 3)), Map.empty)) \<and>
   adds_one_disc othello (board_of_size 4) disc_count \<and>
   board_of_size 4 [[1, 1, 0, 0], [2, 0, 0, 1], [0, 1, 1, 2], [2, 1, 2, 2]] \<and>
   capacity (board_of_size 4) disc_count 16 \<and>
   16 < 7 + disc_count [[1, 1, 0, 0], [2, 0, 0, 1], [0, 1, 1, 2], [2, 1, 2, 2]] \<and>
   minimax_max_node othello 7 Map.empty [[1, 1, 0, 0], [2, 0, 0, 1], [0, 1, 1, 2], [2, 1, 2, 2]] 1 (- 1) 0 \<noteq> None"
proof -
  let ?B = "[[1, 1, 0, 0], [2, 0, 0, 1], [0, 1, 1, 2], [2, 1, 2, 2]] :: board"
  have "map_option fst (minimax_max_node othello 5 Map.empty ?B 1 4 0) = Some (Some (0, 2), Fin (- 3))"
    by code_simp
  then have r: "minimax_max_node othello 5 Map.empty ?B 1 4 0 = Some ((Some (0, 2), Fin (- 3)), Map.empty)"
    by (rule minimax_nocache_result)
  have sz: "board_of_size 4 ?B" by (simp add: board_of_size_def square_def)
  have cap: "capacity (board_of_size 4) disc_count 16"
    using board_of_size_capacity[of 4] by simp
  have d: "16 < 7 + disc_count ?B" by (simp add: disc_count_def disc_weight_def)
  have g: "adds_one_disc othello (board_of_size 4) disc_count \<and> board_of_size 4 ?B \<and>
           capacity (board_of_size 4) disc_count 16 \<and> 16 < 7 + disc_count ?B"
    using othello_keeps_size sz cap d by blast
  from alphabeta_equals_minimax_without_caching
         [where lib = othello and fuel = 5 and cache = Map.empty and board = ?B and color = 1 and limit = 4
            and m = "Some (0, 2)" and v = "Fin (- 3)" and c' = Map.empty and ordering' = 1,
          THEN conjunct1, rule_format, OF r]
  have 1: "\<exists>m'. alphabeta_max_node othello 5 Map.empty ?B 1 NegInf PosInf 4 0 1 = Some ((m', Fin (- 3)), Map.empty)" .
  from alphabeta_equals_minimax_without_caching
         [where lib = othello and fuel = 7 and cache = Map.empty and board = ?B and color = 1 and limit = "- 1"
            and ok = "board_of_size 4" and discs = disc_count and cap = 16,
          THEN conjunct2, THEN conjunct2, rule_format, OF g]
  have 2: "minimax_max_node othello 7 Map.empty ?B 1 (- 1) 0 \<noteq> None" .
  from r 1 g 2 show ?thesis by blast
qed

text \<open>
  C1 as stated fails.  With depth limit 1 the minimax selector searches one ply and finds the
  value 4, while the alpha-beta selector evaluates the root board itself (value 1, no move).
  With caching the node values differ at equal remaining depth as well (minimax limit 4,
  alpha-beta limit 5): -3 against 1.
\<close>

theorem minimax_alphabeta_selectors_differ_counterexample:
  "minimax_root othello 2 [[1, 1, 0, 0], [2, 0, 0, 1], [0, 1, 1, 2], [2, 1, 2, 2]] 1 1 0
     = Some (Some (0, 2), Fin 4) \<and>
   alphabeta_root othello 2 [[1, 1, 0, 0], [2, 0, 0, 1], [0, 1, 1, 2], [2, 1, 2, 2]] 1 1 0 0
     = Some (None, Fin 1) \<and>
   minimax_root othello 5 [[1, 1, 0, 0], [2, 0, 0, 1], [0, 1, 1, 2], [2, 1, 2, 2]] 1 4 1
     = Some (Some (0, 2), Fin (- 3)) \<and>
   alphabeta_root othello 5 [[1, 1, 0, 0], [2, 0, 0, 1], [0, 1, 1, 2], [2, 1, 2, 2]] 1 5 1 0
     = Some (Some (0, 2), Fin 1)"
  by code_simp

text \<open>
  C2, as the code has it: for the minimax selector, and a library in which every legal move
  adds exactly one disc to a well-formed board (as the rules of Othello do), caching does not
  change the move and the root value.  The search returns with a limit of at least 0 and a
  recursion bound above it, and, whatever the limit, when the boards have a bounded capacity
  and the recursion bound is above the number of squares still to fill.
\<close>

theorem minimax_caching_keeps_result:
  assumes "adds_one_disc lib ok discs" and "ok board"
  shows "minimax_root lib fuel board color limit caching = minimax_root lib fuel board color limit 0 \<and>
         map_option fst (select_move_minimax lib fuel g board color limit caching)
           = map_option fst (select_move_minimax lib fuel g' board color limit 0) \<and>
         (0 \<le> limit \<and> nat limit < fuel \<longrightarrow> minimax_root lib fuel board color limit caching \<noteq> None) \<and>
         (capacity ok discs cap \<and> cap < fuel + discs board \<longrightarrow>
            minimax_root lib fuel board color limit caching \<noteq> None)"
proof -
  let ?K1 = "fuel + discs board" and ?K2 = "limit + int (discs board)" and ?P = "discs board"
  from minimax_memo[OF assms(1), of ?K1 ?K2 ?P color Map.empty board fuel limit caching] assms(2)
  have so: "same_outcome (cache_sound lib ok discs ?K1 ?K2 ?P color) True
              (minimax_max_node lib fuel Map.empty board color limit caching)
              (minimax_max_node lib fuel Map.empty board color limit 0)"
    by simp
  have 1: "minimax_root lib fuel board color limit caching = minimax_root lib fuel board color limit 0"
  proof (cases "minimax_max_node lib fuel Map.empty board color limit caching")
    case None
    with so show ?thesis by (simp add: same_outcome_None minimax_root_def)
  next
    case (Some r)
    with so show ?thesis by (auto simp: same_outcome_Some minimax_root_def)
  qed
  have 2: "minimax_root lib fuel board color limit caching \<noteq> None" if "0 \<le> limit \<and> nat limit < fuel"
    using that minimax_returns[of limit fuel lib Map.empty board color caching]
    by (simp add: minimax_root_def del: not_None_eq)
  have 3: "minimax_root lib fuel board color limit caching \<noteq> None"
    if "capacity ok discs cap \<and> cap < fuel + discs board"
  proof -
    from that have "\<forall>b. ok b \<longrightarrow> discs b \<le> cap" "cap < fuel + discs board"
      by (simp_all add: capacity_def)
    from minimax_returns_game[OF assms(1) this(1) assms(2) this(2), of Map.empty color limit caching]
    show ?thesis by (simp add: minimax_root_def del: not_None_eq)
  qed
  from 1 2 3 show ?thesis
    by (simp add: select_move_minimax_root del: not_None_eq)
qed

theorem minimax_caching_keeps_result_witness:
  "adds_one_disc othello (board_of_size 4) disc_count \<and>
   board_of_size 4 [[1, 1, 0, 0], [2, 0, 0, 1], [0, 1, 1, 2], [2, 1, 2, 2]] \<and>
   minimax_root othello 5 [[1, 1, 0, 0], [2, 0, 0, 1], [0, 1, 1, 2], [2, 1, 2, 2]] 1 4 1
     = Some (Some (0, 2), Fin (- 3)) \<and>
   minimax_root othello 5 [[1, 1, 0, 0], [2, 0, 0, 1], [0, 1, 1, 2], [2, 1, 2, 2]] 1 4 0
     = Some (Some (0, 2), Fin (- 3)) \<and>
   map_option fst (select_move_minimax othello 5 None [[1, 1, 0, 0], [2, 0, 0, 1], [0, 1, 1, 2], [2, 1, 2, 2]] 1 4 1)
     = Some (Some (0, 2)) \<and>
   capacity (board_of_size 4) disc_count 16 \<and>
   16 < 7 + disc_count [[1, 1, 0, 0], [2, 0, 0, 1], [0, 1, 1, 2], [2, 1, 2, 2]] \<and>
   minimax_root othello 7 [[1, 1, 0, 0], [2, 0, 0, 1], [0, 1, 1, 2], [2, 1, 2, 2]] 1 (- 1) 1 \<noteq> None"
proof -
  let ?B = "[[1, 1, 0, 0], [2, 0, 0, 1], [0, 1, 1, 2], [2, 1, 2, 2]] :: board"
  have sz: "board_of_size 4 ?B" by (simp add: board_of_size_def square_def)
  have cap: "capacity (board_of_size 4) disc_count 16"
    using board_of_size_capacity[of 4] by simp
  have d: "16 < 7 + disc_count ?B" by (simp add: disc_count_def disc_weight_def)
  have r: "minimax_root othello 5 ?B 1 4 0 = Some (Some (0, 2), Fin (- 3))" by code_simp
  from minimax_caching_keeps_result[OF othello_keeps_size sz, of 5 1 4 1 None None] r
  have 1: "minimax_root othello 5 ?B 1 4 1 = Some (Some (0, 2), Fin (- 3))"
    "map_option fst (select_move_minimax othello 5 None ?B 1 4 1) = Some (Some (0, 2))"
    by (simp_all add: select_move_minimax_root)
  from minimax_caching_keeps_result[OF othello_keeps_size sz, of 7 1 "- 1" 1 None None 16] cap d
  have 2: "minimax_root othello 7 ?B 1 (- 1) 1 \<noteq> None"
    by blast
  from othello_keeps_size sz r 1 cap d 2 show ?thesis by blast
qed

text \<open>
  C2 as stated fails for the alpha-beta selector: on this board, with depth limit 5 and no
  ordering, the root value is -3 without caching and 1 with caching.
\<close>

theorem alphabeta_caching_changes_value_counterexample:
  "alphabeta_root othello 5 [[1, 1, 0, 0], [2, 0, 0, 1], [0, 1, 1, 2], [2, 1, 2, 2]] 1 5 0 0
     = Some (Some (0, 2), Fin (- 3)) \<and>
   alphabeta_root othello 5 [[1, 1, 0, 0], [2, 0, 0, 1], [0, 1, 1, 2], [2, 1, 2, 2]] 1 5 1 0
     = Some (Some (0, 2), Fin 1)"
  by code_simp

text \<open>
  C3: when the acting colour has no legal move, the root call of either search returns
  no move together with the exact score differential of that colour, and both selectors
  return no move.  No exception is involved: the call returns as soon as it is entered.
\<close>

theorem no_legal_move_gives_no_move:
  assumes "get_possible_moves lib board color = []" and "0 < fuel"
  shows "minimax_root lib fuel board color limit caching = Some (None, Fin (compute_utility lib board color)) \<and>
         alphabeta_root lib fuel board color limit caching ordering'
           = Some (None, Fin (compute_utility lib board color)) \<and>
         map_option fst (select_move_minimax lib fuel g board color limit caching) = Some None \<and>
         map_option fst (select_move_alphabeta lib fuel g board color limit caching ordering') = Some None"
proof -
  from assms(2) obtain f where f: "fuel = Suc f" by (cases fuel) auto
  have 1: "minimax_root lib fuel board color limit caching = Some (None, Fin (compute_utility lib board color))"
    by (simp add: minimax_root_def f minimax_max_node_unfold assms(1))
  have 2: "alphabeta_root lib fuel board color limit caching ordering'
             = Some (None, Fin (compute_utility lib board color))"
    by (simp add: alphabeta_root_def f alphabeta_max_node_unfold assms(1))
  from 1 2 show ?thesis
    by (simp add: select_move_minimax_root select_move_alphabeta_root)
qed

theorem no_legal_move_gives_no_move_witness:
  "get_possible_moves othello [[1, 1], [2, 0]] 1 = [] \<and>
   minimax_root othello 1 [[1, 1], [2, 0]] 1 3 1 = Some (None, Fin 1) \<and>
   alphabeta_root othello 1 [[1, 1], [2, 0]] 1 3 1 1 = Some (None, Fin 1) \<and>
   map_option fst (select_move_minimax othello 1 None [[1, 1], [2, 0]] 1 3 1) = Some None \<and>
   map_option fst (select_move_alphabeta othello 1 None [[1, 1], [2, 0]] 1 3 1 1) = Some None"
proof -
  have h: "get_possible_moves othello [[1, 1], [2, 0]] 1 = []" by code_simp
  have u: "compute_utility othello [[1, 1], [2, 0]] 1 = 1" by code_simp
  from no_legal_move_gives_no_move[OF h, of 1 3 1 1 None] h u show ?thesis by simp
qed

text \<open>
  C4: without caching, a max node that has legal moves and a nonzero limit returns the
  first move, in the order of \<^verbatim>\<open>get_possible_moves\<close>, whose successor has the greatest
  min-node value: no later move has a greater value and every earlier move has a strictly
  smaller one.  A min node does the same with the opponent's moves and the least max-node
  value.  The colour handed to the children and to \<^verbatim>\<open>compute_utility\<close> at the leaves is
  the colour of the root also in a min node.  Both nodes return: with a limit of at least 0
  and a recursion bound above it, and, whatever the limit (a negative limit is never
  exhausted), in a game in which every move adds one disc to a board of bounded capacity,
  with a recursion bound above the number of squares still to fill.
\<close>

theorem minimax_selects_first_best_move:
  "(get_possible_moves lib board color \<noteq> [] \<and> limit \<noteq> 0 \<and>
    minimax_max_node lib (Suc fuel) cache board color limit 0 = Some ((bm, v), c') \<longrightarrow>
      (\<exists>vs i. max_node_children lib fuel cache board color limit = map Some vs \<and>
         first_greatest vs i \<and> bm = Some (get_possible_moves lib board color ! i) \<and> v = vs ! i)) \<and>
   (get_possible_moves lib board (other color) \<noteq> [] \<and> limit \<noteq> 0 \<and>
    minimax_min_node lib (Suc fuel) cache board color limit 0 = Some ((bm', v'), c'') \<longrightarrow>
      (\<exists>vs i. min_node_children lib fuel cache board color limit = map Some vs \<and>
         first_least vs i \<and> bm' = Some (get_possible_moves lib board (other color) ! i) \<and> v' = vs ! i)) \<and>
   (get_possible_moves lib board (other color) = [] \<or> limit = 0 \<longrightarrow>
      minimax_min_node lib (Suc fuel) cache board color limit 0
        = Some ((None, Fin (compute_utility lib board color)), cache)) \<and>
   (0 \<le> limit \<and> nat limit \<le> fuel \<longrightarrow>
      minimax_max_node lib (Suc fuel) cache board color limit 0 \<noteq> None \<and>
      minimax_min_node lib (Suc fuel) cache board color limit 0 \<noteq> None) \<and>
   (adds_one_disc lib ok discs \<and> ok board \<and> capacity ok discs cap \<and> cap < Suc fuel + discs board \<longrightarrow>
      minimax_max_node lib (Suc fuel) cache board color limit 0 \<noteq> None \<and>
      minimax_min_node lib (Suc fuel) cache board color limit 0 \<noteq> None)"
proof (intro conjI impI)
  assume "get_possible_moves lib board color \<noteq> [] \<and> limit \<noteq> 0 \<and>
    minimax_max_node lib (Suc fuel) cache board color limit 0 = Some ((bm, v), c')"
  then show "\<exists>vs i. max_node_children lib fuel cache board color limit = map Some vs \<and>
         first_greatest vs i \<and> bm = Some (get_possible_moves lib board color ! i) \<and> v = vs ! i"
    using minimax_max_node_first_greatest by blast
next
  assume "get_possible_moves lib board (other color) \<noteq> [] \<and> limit \<noteq> 0 \<and>
    minimax_min_node lib (Suc fuel) cache board color limit 0 = Some ((bm', v'), c'')"
  then show "\<exists>vs i. min_node_children lib fuel cache board color limit = map Some vs \<and>
         first_least vs i \<and> bm' = Some (get_possible_moves lib board (other color) ! i) \<and> v' = vs ! i"
    using minimax_min_node_first_least by blast
next
  assume "get_possible_moves lib board (other color) = [] \<or> limit = 0"
  then show "minimax_min_node lib (Suc fuel) cache board color limit 0
        = Some ((None, Fin (compute_utility lib board color)), cache)"
    by (auto simp: minimax_min_node_unfold)
next
  assume "0 \<le> limit \<and> nat limit \<le> fuel"
  then show "minimax_max_node lib (Suc fuel) cache board color limit 0 \<noteq> None"
    using minimax_returns[of limit "Suc fuel" lib cache board color 0] by simp
next
  assume "0 \<le> limit \<and> nat limit \<le> fuel"
  then show "minimax_min_node lib (Suc fuel) cache board color limit 0 \<noteq> None"
    using minimax_returns[of limit "Suc fuel" lib cache board color 0] by simp
next
  assume "adds_one_disc lib ok discs \<and> ok board \<and> capacity ok discs cap \<and> cap < Suc fuel + discs board"
  then have "adds_one_disc lib ok discs" "\<forall>b. ok b \<longrightarrow> discs b \<le> cap" "ok board" "cap < Suc fuel + discs board"
    by (simp_all add: capacity_def)
  from minimax_returns_game[OF this, of cache color limit 0]
  show "minimax_max_node lib (Suc fuel) cache board color limit 0 \<noteq> None"
    by blast
next
  assume "adds_one_disc lib ok discs \<and> ok board \<and> capacity ok discs cap \<and> cap < Suc fuel + discs board"
  then have "adds_one_disc lib ok discs" "\<forall>b. ok b \<longrightarrow> discs b \<le> cap" "ok board" "cap < Suc fuel + discs board"
    by (simp_all add: capacity_def)
  from minimax_returns_game[OF this, of cache color limit 0]
  show "minimax_min_node lib (Suc fuel) cache board color limit 0 \<noteq> None"
    by blast
qed

text \<open>
  On the board below, reached from the 4 x 4 opening in seven moves, the children of the max
  node have the values 6, 8, 8 at limit 1, and the second move is returned; with a negative
  limit the search runs to the end of the game, the values are 4, 3, 8, and the third move
  is returned.  The children of the min node have the values 0, -2, -2 at limit 1 and
  0, 2, -2 with a negative limit.
\<close>

theorem minimax_selects_first_best_move_witness:
  "get_possible_moves othello [[0, 1, 2, 0], [0, 2, 1, 2], [2, 1, 1, 1], [1, 0, 1, 0]] 1 = [(0, 0), (0, 1), (3, 0)] \<and>
   get_possible_moves othello [[0, 1, 2, 0], [0, 2, 1, 2], [2, 1, 1, 1], [1, 0, 1, 0]] (other 1) = [(0, 0), (1, 3), (3, 3)] \<and>
   minimax_max_node othello (Suc 1) Map.empty [[0, 1, 2, 0], [0, 2, 1, 2], [2, 1, 1, 1], [1, 0, 1, 0]] 1 1 0 = Some ((Some (0, 1), Fin 8), Map.empty) \<and>
   (\<exists>vs i. max_node_children othello 1 Map.empty [[0, 1, 2, 0], [0, 2, 1, 2], [2, 1, 1, 1], [1, 0, 1, 0]] 1 1 = map Some vs \<and>
           first_greatest vs i \<and> (0, 1) = ([(0, 0), (0, 1), (3, 0)] :: move list) ! i \<and> Fin 8 = vs ! i) \<and>
   minimax_min_node othello (Suc 1) Map.empty [[0, 1, 2, 0], [0, 2, 1, 2], [2, 1, 1, 1], [1, 0, 1, 0]] 1 1 0 = Some ((Some (1, 3), Fin (- 2)), Map.empty) \<and>
   (\<exists>vs i. min_node_children othello 1 Map.empty [[0, 1, 2, 0], [0, 2, 1, 2], [2, 1, 1, 1], [1, 0, 1, 0]] 1 1 = map Some vs \<and>
           first_least vs i \<and> (1, 3) = ([(0, 0), (1, 3), (3, 3)] :: move list) ! i \<and> Fin (- 2) = vs ! i) \<and>
   minimax_max_node othello (Suc 5) Map.empty [[0, 1, 2, 0], [0, 2, 1, 2], [2, 1, 1, 1], [1, 0, 1, 0]] 1 (- 1) 0 = Some ((Some (3, 0), Fin 8), Map.empty) \<and>
   (\<exists>vs i. max_node_children othello 5 Map.empty [[0, 1, 2, 0], [0, 2, 1, 2], [2, 1, 1, 1], [1, 0, 1, 0]] 1 (- 1) = map Some vs \<and>
           first_greatest vs i \<and> (3, 0) = ([(0, 0), (0, 1), (3, 0)] :: move list) ! i \<and> Fin 8 = vs ! i) \<and>
   minimax_min_node othello (Suc 5) Map.empty [[0, 1, 2, 0], [0, 2, 1, 2], [2, 1, 1, 1], [1, 0, 1, 0]] 1 (- 1) 0 = Some ((Some (3, 3), Fin (- 2)), Map.empty) \<and>
   (\<exists>vs i. min_node_children othello 5 Map.empty [[0, 1, 2, 0], [0, 2, 1, 2], [2, 1, 1, 1], [1, 0, 1, 0]] 1 (- 1) = map Some vs \<and>
           first_least vs i \<and> (3, 3) = ([(0, 0), (1, 3), (3, 3)] :: move list) ! i \<and> Fin (- 2) = vs ! i) \<and>
   minimax_min_node othello (Suc 1) Map.empty [[0, 1, 2, 0], [0, 2, 1, 2], [2, 1, 1, 1], [1, 0, 1, 0]] 1 0 0 = Some ((None, Fin 3), Map.empty) \<and>
   adds_one_disc othello (board_of_size 4) disc_count \<and> board_of_size 4 [[0, 1, 2, 0], [0, 2, 1, 2], [2, 1, 1, 1], [1, 0, 1, 0]] \<and>
   capacity (board_of_size 4) disc_count 16 \<and> 16 < Suc 5 + disc_count [[0, 1, 2, 0], [0, 2, 1, 2], [2, 1, 1, 1], [1, 0, 1, 0]] \<and>
   minimax_max_node othello (Suc 5) Map.empty [[0, 1, 2, 0], [0, 2, 1, 2], [2, 1, 1, 1], [1, 0, 1, 0]] 1 (- 2) 0 \<noteq> None \<and>
   minimax_min_node othello (Suc 5) Map.empty [[0, 1, 2, 0], [0, 2, 1, 2], [2, 1, 1, 1], [1, 0, 1, 0]] 1 (- 2) 0 \<noteq> None"
proof -
  let ?W = "[[0, 1, 2, 0], [0, 2, 1, 2], [2, 1, 1, 1], [1, 0, 1, 0]] :: board"
  have m1: "get_possible_moves othello ?W 1 = [(0, 0), (0, 1), (3, 0)]" by code_simp
  have m2: "get_possible_moves othello ?W (other 1) = [(0, 0), (1, 3), (3, 3)]" by code_simp
  have "map_option fst (minimax_max_node othello (Suc 1) Map.empty ?W 1 1 0) = Some (Some (0, 1), Fin 8)"
    by code_simp
  then have r1: "minimax_max_node othello (Suc 1) Map.empty ?W 1 1 0 = Some ((Some (0, 1), Fin 8), Map.empty)"
    by (rule minimax_nocache_result)
  have "map_option fst (minimax_min_node othello (Suc 1) Map.empty ?W 1 1 0) = Some (Some (1, 3), Fin (- 2))"
    by code_simp
  then have r2: "minimax_min_node othello (Suc 1) Map.empty ?W 1 1 0 = Some ((Some (1, 3), Fin (- 2)), Map.empty)"
    by (rule minimax_nocache_result)
  have "map_option fst (minimax_max_node othello (Suc 5) Map.empty ?W 1 (- 1) 0) = Some (Some (3, 0), Fin 8)"
    by code_simp
  then have r3: "minimax_max_node othello (Suc 5) Map.empty ?W 1 (- 1) 0 = Some ((Some (3, 0), Fin 8), Map.empty)"
    by (rule minimax_nocache_result)
  have "map_option fst (minimax_min_node othello (Suc 5) Map.empty ?W 1 (- 1) 0) = Some (Some (3, 3), Fin (- 2))"
    by code_simp
  then have r4: "minimax_min_node othello (Suc 5) Map.empty ?W 1 (- 1) 0 = Some ((Some (3, 3), Fin (- 2)), Map.empty)"
    by (rule minimax_nocache_result)
  have u: "compute_utility othello ?W 1 = 3" by code_simp
  have sz: "board_of_size 4 ?W" by (simp add: board_of_size_def square_def)
  have cap: "capacity (board_of_size 4) disc_count 16"
    using board_of_size_capacity[of 4] by simp
  have d: "16 < Suc 5 + disc_count ?W" by (simp add: disc_count_def disc_weight_def)
  note t = minimax_selects_first_best_move[where lib = othello and board = ?W and color = 1 and cache = Map.empty]
  have h1: "get_possible_moves othello ?W 1 \<noteq> [] \<and> (1::int) \<noteq> 0 \<and>
            minimax_max_node othello (Suc 1) Map.empty ?W 1 1 0 = Some ((Some (0, 1), Fin 8), Map.empty)"
    using m1 r1 by simp
  from t[where fuel = 1 and limit = 1 and bm = "Some (0, 1)" and v = "Fin 8" and c' = Map.empty,
         THEN conjunct1, rule_format, OF h1] m1
  have 1: "\<exists>vs i. max_node_children othello 1 Map.empty ?W 1 1 = map Some vs \<and>
           first_greatest vs i \<and> (0, 1) = ([(0, 0), (0, 1), (3, 0)] :: move list) ! i \<and> Fin 8 = vs ! i"
    by simp
  have h2: "get_possible_moves othello ?W (other 1) \<noteq> [] \<and> (1::int) \<noteq> 0 \<and>
            minimax_min_node othello (Suc 1) Map.empty ?W 1 1 0 = Some ((Some (1, 3), Fin (- 2)), Map.empty)"
    using m2 r2 by simp
  from t[where fuel = 1 and limit = 1 and bm' = "Some (1, 3)" and v' = "Fin (- 2)" and c'' = Map.empty,
         THEN conjunct2, THEN conjunct1, rule_format, OF h2] m2
  have 2: "\<exists>vs i. min_node_children othello 1 Map.empty ?W 1 1 = map Some vs \<and>
           first_least vs i \<and> (1, 3) = ([(0, 0), (1, 3), (3, 3)] :: move list) ! i \<and> Fin (- 2) = vs ! i"
    by simp
  have h3: "get_possible_moves othello ?W 1 \<noteq> [] \<and> (- 1::int) \<noteq> 0 \<and>
            minimax_max_node othello (Suc 5) Map.empty ?W 1 (- 1) 0 = Some ((Some (3, 0), Fin 8), Map.empty)"
    using m1 r3 by simp
  from t[where fuel = 5 and limit = "- 1" and bm = "Some (3, 0)" and v = "Fin 8" and c' = Map.empty,
         THEN conjunct1, rule_format, OF h3] m1
  have 3: "\<exists>vs i. max_node_children othello 5 Map.empty ?W 1 (- 1) = map Some vs \<and>
           first_greatest vs i \<and> (3, 0) = ([(0, 0), (0, 1), (3, 0)] :: move list) ! i \<and> Fin 8 = vs ! i"
    by simp
  have h4: "get_possible_moves othello ?W (other 1) \<noteq> [] \<and> (- 1::int) \<noteq> 0 \<and>
            minimax_min_node othello (Suc 5) Map.empty ?W 1 (- 1) 0 = Some ((Some (3, 3), Fin (- 2)), Map.empty)"
    using m2 r4 by simp
  from t[where fuel = 5 and limit = "- 1" and bm' = "Some (3, 3)" and v' = "Fin (- 2)" and c'' = Map.empty,
         THEN conjunct2, THEN conjunct1, rule_format, OF h4] m2
  have 4: "\<exists>vs i. min_node_children othello 5 Map.empty ?W 1 (- 1) = map Some vs \<and>
           first_least vs i \<and> (3, 3) = ([(0, 0), (1, 3), (3, 3)] :: move list) ! i \<and> Fin (- 2) = vs ! i"
    by simp
  have h5: "get_possible_moves othello ?W (other 1) = [] \<or> (0::int) = 0" by simp
  from t[where fuel = 1 and limit = 0, THEN conjunct2, THEN conjunct2, THEN conjunct1, rule_format, OF h5] u
  have 5: "minimax_min_node othello (Suc 1) Map.empty ?W 1 0 0 = Some ((None, Fin 3), Map.empty)"
    by simp
  have g: "adds_one_disc othello (board_of_size 4) disc_count \<and> board_of_size 4 ?W \<and>
           capacity (board_of_size 4) disc_count 16 \<and> 16 < Suc 5 + disc_count ?W"
    using othello_keeps_size sz cap d by blast
  from t[where fuel = 5 and limit = "- 2" and ok = "board_of_size 4" and discs = disc_count and cap = 16,
         THEN conjunct2, THEN conjunct2, THEN conjunct2, THEN conjunct2, rule_format, OF g]
  have 6: "minimax_max_node othello (Suc 5) Map.empty ?W 1 (- 2) 0 \<noteq> None \<and>
           minimax_min_node othello (Suc 5) Map.empty ?W 1 (- 2) 0 \<noteq> None" .
  from m1 m2 r1 1 r2 2 r3 3 r4 4 5 g 6 show ?thesis by blast
qed

text \<open>
  C5, as the code has it: with caching disabled, the alpha-beta selector computes the same
  root value with and without move ordering, namely the minimax value of the same depth,
  whenever the exhaustive search of that depth returns.  It returns when the depth limit is
  at least 1 and the recursion bound is at least the limit, and, whatever the limit, in a
  game in which every move adds one disc to a board of bounded capacity, with a recursion
  bound above the number of squares still to fill.
\<close>

theorem ordering_keeps_value_without_caching:
  "(minimax_max_node lib fuel Map.empty board color (limit - 1) 0 = Some ((m, v), c') \<longrightarrow>
      (\<exists>m0 m1. alphabeta_root lib fuel board color limit 0 0 = Some (m0, v) \<and>
               alphabeta_root lib fuel board color limit 0 ordering' = Some (m1, v))) \<and>
   (1 \<le> limit \<and> nat limit \<le> fuel \<longrightarrow>
      minimax_max_node lib fuel Map.empty board color (limit - 1) 0 \<noteq> None) \<and>
   (adds_one_disc lib ok discs \<and> ok board \<and> capacity ok discs cap \<and> cap < fuel + discs board \<longrightarrow>
      minimax_max_node lib fuel Map.empty board color (limit - 1) 0 \<noteq> None)"
proof (intro conjI impI)
  assume a: "minimax_max_node lib fuel Map.empty board color (limit - 1) 0 = Some ((m, v), c')"
  from alphabeta_value_is_minimax_value[OF a, of 0] alphabeta_value_is_minimax_value[OF a, of ordering']
  show "\<exists>m0 m1. alphabeta_root lib fuel board color limit 0 0 = Some (m0, v) \<and>
               alphabeta_root lib fuel board color limit 0 ordering' = Some (m1, v)"
    by (auto simp: alphabeta_root_def)
next
  assume "1 \<le> limit \<and> nat limit \<le> fuel"
  then have "0 \<le> limit - 1" "nat (limit - 1) < fuel" by linarith+
  then show "minimax_max_node lib fuel Map.empty board color (limit - 1) 0 \<noteq> None"
    using minimax_returns[of "limit - 1" fuel lib Map.empty board color 0] by simp
next
  assume a: "adds_one_disc lib ok discs \<and> ok board \<and> capacity ok discs cap \<and> cap < fuel + discs board"
  then have "adds_one_disc lib ok discs" "\<forall>b. ok b \<longrightarrow> discs b \<le> cap" "ok board" "cap < fuel + discs board"
    by (simp_all add: capacity_def)
  from minimax_returns_game[OF this, of Map.empty color "limit - 1" 0]
  show "minimax_max_node lib fuel Map.empty board color (limit - 1) 0 \<noteq> None"
    by blast
qed

theorem ordering_keeps_value_without_caching_witness:
  "minimax_max_node othello 5 Map.empty [[1, 1, 0, 0], [2, 0, 0, 1], [0, 1, 1, 2], [2, 1, 2, 2]] 1 (5 - 1) 0
     = Some ((Some (0, 2), Fin (- 3)), Map.empty) \<and>
   (\<exists>m0 m1. alphabeta_root othello 5 [[1, 1, 0, 0], [2, 0, 0, 1], [0, 1, 1, 2], [2, 1, 2, 2]] 1 5 0 0
               = Some (m0, Fin (- 3)) \<and>
            alphabeta_root othello 5 [[1, 1, 0, 0], [2, 0, 0, 1], [0, 1, 1, 2], [2, 1, 2, 2]] 1 5 0 1
               = Some (m1, Fin (- 3))) \<and>
   adds_one_disc othello (board_of_size 4) disc_count \<and>
   board_of_size 4 [[1, 1, 0, 0], [2, 0, 0, 1], [0, 1, 1, 2], [2, 1, 2, 2]] \<and>
   capacity (board_of_size 4) disc_count 16 \<and>
   16 < 7 + disc_count [[1, 1, 0, 0], [2, 0, 0, 1], [0, 1, 1, 2], [2, 1, 2, 2]] \<and>
   minimax_max_node othello 7 Map.empty [[1, 1, 0, 0], [2, 0, 0, 1], [0, 1, 1, 2], [2, 1, 2, 2]] 1 (0 - 1) 0 \<noteq> None"
proof -
  let ?B = "[[1, 1, 0, 0], [2, 0, 0, 1], [0, 1, 1, 2], [2, 1, 2, 2]] :: board"
  have "map_option fst (minimax_max_node othello 5 Map.empty ?B 1 (5 - 1) 0) = Some (Some (0, 2), Fin (- 3))"
    by code_simp
  then have r: "minimax_max_node othello 5 Map.empty ?B 1 (5 - 1) 0 = Some ((Some (0, 2), Fin (- 3)), Map.empty)"
    by (rule minimax_nocache_result)
  have sz: "board_of_size 4 ?B" by (simp add: board_of_size_def square_def)
  have cap: "capacity (board_of_size 4) disc_count 16"
    using board_of_size_capacity[of 4] by simp
  have d: "16 < 7 + disc_count ?B" by (simp add: disc_count_def disc_weight_def)
  have g: "adds_one_disc othello (board_of_size 4) disc_count \<and> board_of_size 4 ?B \<and>
           capacity (board_of_size 4) disc_count 16 \<and> 16 < 7 + disc_count ?B"
    using othello_keeps_size sz cap d by blast
  from ordering_keeps_value_without_caching
         [where lib = othello and fuel = 5 and board = ?B and color = 1 and limit = 5
            and m = "Some (0, 2)" and v = "Fin (- 3)" and c' = Map.empty and ordering' = 1,
          THEN conjunct1, rule_format, OF r]
  have 1: "\<exists>m0 m1. alphabeta_root othello 5 ?B 1 5 0 0 = Some (m0, Fin (- 3)) \<and>
                   alphabeta_root othello 5 ?B 1 5 0 1 = Some (m1, Fin (- 3))" .
  from ordering_keeps_value_without_caching
         [where lib = othello and fuel = 7 and board = ?B and color = 1 and limit = 0
            and ok = "board_of_size 4" and discs = disc_count and cap = 16,
          THEN conjunct2, THEN conjunct2, rule_format, OF g]
  have 2: "minimax_max_node othello 7 Map.empty ?B 1 (0 - 1) 0 \<noteq> None" .
  from r 1 g 2 show ?thesis by blast
qed

text \<open>
  C5 as stated fails with caching enabled: on this board, with depth limit 5, the root value
  is 1 without ordering and -3 with ordering.
\<close>

theorem ordering_changes_value_with_caching_counterexample:
  "alphabeta_root othello 5 [[1, 1, 0, 0], [2, 0, 0, 1], [0, 1, 1, 2], [2, 1, 2, 2]] 1 5 1 0
     = Some (Some (0, 2), Fin 1) \<and>
   alphabeta_root othello 5 [[1, 1, 0, 0], [2, 0, 0, 1], [0, 1, 1, 2], [2, 1, 2, 2]] 1 5 1 1
     = Some (Some (0, 2), Fin (- 3))"
  by code_simp

text \<open>
  C6: for the two valid colours, \<^verbatim>\<open>compute_utility\<close> is the number of discs of the
  colour minus the number of discs of the other colour, given that \<^verbatim>\<open>get_score\<close>
  returns the pair (dark count, light count), where 1 is dark and 2 is light.
\<close>

theorem compute_utility_is_disc_differential:
  assumes "get_score lib board = (count_color board 1, count_color board 2)"
    and "color = 1 \<or> color = 2"
  shows "compute_utility lib board color = count_color board color - count_color board (other color)"
  using assms by (auto simp: compute_utility_def other_def)

theorem compute_utility_is_disc_differential_witness:
  "get_score othello [[1, 1, 0, 0], [2, 0, 0, 1], [0, 1, 1, 2], [2, 1, 2, 2]]
     = (count_color [[1, 1, 0, 0], [2, 0, 0, 1], [0, 1, 1, 2], [2, 1, 2, 2]] 1,
        count_color [[1, 1, 0, 0], [2, 0, 0, 1], [0, 1, 1, 2], [2, 1, 2, 2]] 2) \<and>
   compute_utility othello [[1, 1, 0, 0], [2, 0, 0, 1], [0, 1, 1, 2], [2, 1, 2, 2]] 2 = 5 - 6"
proof -
  have h: "get_score othello [[1, 1, 0, 0], [2, 0, 0, 1], [0, 1, 1, 2], [2, 1, 2, 2]]
     = (count_color [[1, 1, 0, 0], [2, 0, 0, 1], [0, 1, 1, 2], [2, 1, 2, 2]] 1,
        count_color [[1, 1, 0, 0], [2, 0, 0, 1], [0, 1, 1, 2], [2, 1, 2, 2]] 2)"
    by (simp add: othello_def othello_get_score_def)
  have c: "count_color [[1, 1, 0, 0], [2, 0, 0, 1], [0, 1, 1, 2], [2, 1, 2, 2]] 2 = 5"
    "count_color [[1, 1, 0, 0], [2, 0, 0, 1], [0, 1, 1, 2], [2, 1, 2, 2]] (other 2) = 6"
    by (simp_all add: count_color_def other_def)
  from compute_utility_is_disc_differential[OF h, of 2] c h show ?thesis by simp
qed

text \<open>
  C7, as the code has it: on a non-empty square board \<^verbatim>\<open>compute_heuristic\<close> returns the
  sum, with weight 1 each and added from left to right in floating point, of three
  components: over the numbers of legal moves, over the numbers of own discs that have an
  empty square among their at most eight neighbours on the board, and over the numbers of
  corners held.  A component is the ratio \<open>100 \<times> ((mine - theirs) / (mine + theirs))\<close> with
  the quotient and the product rounded to a float; it is 0 when the denominator is 0, lies
  between -100 and 100, and is within \<^verbatim>\<open>41 / 2^51\<close> of the exact ratio.  The value returned
  is within \<^verbatim>\<open>1 / 2^43\<close> of the exact sum of the three ratios.
\<close>

theorem compute_heuristic_is_sum_of_ratios:
  assumes "square board" and "board \<noteq> []"
  shows "compute_heuristic lib board color
           = Some (float_add
                     (float_add (component (mobility lib board color) (mobility lib board (other color)))
                                (component (potential board color) (potential board (other color))))
                     (component (corner_count board color) (corner_count board (other color)))) \<and>
         component_ok (mobility lib board color) (mobility lib board (other color)) \<and>
         component_ok (potential board color) (potential board (other color)) \<and>
         component_ok (corner_count board color) (corner_count board (other color)) \<and>
         (\<exists>v. compute_heuristic lib board color = Some v \<and>
              \<bar>v - (ratio (mobility lib board color) (mobility lib board (other color)) +
                     ratio (potential board color) (potential board (other color)) +
                     ratio (corner_count board color) (corner_count board (other color)))\<bar> \<le> 1 / 2 ^ 43)"
proof -
  let ?opp = "other color"
  let ?cl = "corner_list board"
  let ?c1 = "component (mobility lib board color) (mobility lib board ?opp)"
  let ?c2 = "component (potential board color) (potential board ?opp)"
  let ?c3 = "component (corner_count board color) (corner_count board ?opp)"
  from corner_list_count[OF assms(2)] obtain m where m: "0 < m"
    and cnt: "\<And>col. length (filter (\<lambda>p. piece_at board p = col) ?cl) = m * corner_count board col"
    by blast
  have cc: "count_corners board color ?opp ?cl (0, 0)
              = Some (int (m * corner_count board color), int (m * corner_count board ?opp))"
    using count_corners_eq[OF assms(1) other_neq(2) corner_list_on_board[OF assms(2)], of color 0 0]
    by (simp add: cnt)
  have h1: "(if int a + int b \<noteq> 0
             then float_add 0 (float_mul 100 (float_div (int a - int b) (int a + int b)))
             else 0) = component a b" for a b
    using add_component[of 0 a b] by (simp add: float_add_0)
  have h2: "(if int a + int b \<noteq> 0
             then float_add ?c1 (float_mul 100 (float_div (int a - int b) (int a + int b)))
             else ?c1) = float_add ?c1 (component a b)" for a b
    by (rule add_component) (rule component_float)
  have fl: "float_round (float_add ?c1 ?c2) = float_add ?c1 ?c2"
    using component_abs_le[of "mobility lib board color" "mobility lib board ?opp"]
          component_abs_le[of "potential board color" "potential board ?opp"]
    by (intro float_add_float) simp_all
  have h3: "(if int a + int b \<noteq> 0
             then float_add (float_add ?c1 ?c2) (float_mul 100 (float_div (int a - int b) (int a + int b)))
             else float_add ?c1 ?c2) = float_add (float_add ?c1 ?c2) (component a b)" for a b
    by (rule add_component) (rule fl)
  have "compute_heuristic lib board color
          = Some (float_add (float_add ?c1 ?c2)
                    (component (m * corner_count board color) (m * corner_count board ?opp)))"
    unfolding compute_heuristic_def Let_def
    using cc
    by (simp only: other_def[symmetric] mobility_def[symmetric] count_empty_eq[OF assms(1)] h1 h2 h3
                   corner_list_def[unfolded Let_def, symmetric] bind.bind_lunit prod.case)
  then have 1: "compute_heuristic lib board color = Some (float_add (float_add ?c1 ?c2) ?c3)"
    by (simp only: component_scale[OF m])
  from sum_err[of "mobility lib board color" "mobility lib board ?opp" "potential board color"
                  "potential board ?opp" "corner_count board color" "corner_count board ?opp"] 1
  have 2: "\<exists>v. compute_heuristic lib board color = Some v \<and>
              \<bar>v - (ratio (mobility lib board color) (mobility lib board ?opp) +
                     ratio (potential board color) (potential board ?opp) +
                     ratio (corner_count board color) (corner_count board ?opp))\<bar> \<le> 1 / 2 ^ 43"
    by blast
  from 1 2 component_ok show ?thesis by blast
qed

text \<open>
  On the board below the counts are 0 and 2 moves, 5 and 1 discs next to an empty square,
  and 2 and 1 corners.  The three components are -100 and the rounded products of 100 with
  the floats nearest to 2/3 and to 1/3, and their sum in floating point is \<^verbatim>\<open>-1 / 2^46\<close>.
\<close>

theorem compute_heuristic_is_sum_of_ratios_witness:
  "square [[1, 0, 2, 0], [1, 1, 1, 1], [2, 2, 2, 2], [2, 1, 1, 1]] \<and>
   [[1, 0, 2, 0], [1, 1, 1, 1], [2, 2, 2, 2], [2, 1, 1, 1]] \<noteq> ([] :: board) \<and>
   compute_heuristic othello [[1, 0, 2, 0], [1, 1, 1, 1], [2, 2, 2, 2], [2, 1, 1, 1]] 1 = Some (- 1 / 2 ^ 46) \<and>
   float_add (float_add (component (mobility othello [[1, 0, 2, 0], [1, 1, 1, 1], [2, 2, 2, 2], [2, 1, 1, 1]] 1) (mobility othello [[1, 0, 2, 0], [1, 1, 1, 1], [2, 2, 2, 2], [2, 1, 1, 1]] (other 1)))
                        (component (potential [[1, 0, 2, 0], [1, 1, 1, 1], [2, 2, 2, 2], [2, 1, 1, 1]] 1) (potential [[1, 0, 2, 0], [1, 1, 1, 1], [2, 2, 2, 2], [2, 1, 1, 1]] (other 1))))
             (component (corner_count [[1, 0, 2, 0], [1, 1, 1, 1], [2, 2, 2, 2], [2, 1, 1, 1]] 1) (corner_count [[1, 0, 2, 0], [1, 1, 1, 1], [2, 2, 2, 2], [2, 1, 1, 1]] (other 1))) = - 1 / 2 ^ 46 \<and>
   component_ok (corner_count [[1, 0, 2, 0], [1, 1, 1, 1], [2, 2, 2, 2], [2, 1, 1, 1]] 1) (corner_count [[1, 0, 2, 0], [1, 1, 1, 1], [2, 2, 2, 2], [2, 1, 1, 1]] (other 1))"
proof -
  let ?H = "[[1, 0, 2, 0], [1, 1, 1, 1], [2, 2, 2, 2], [2, 1, 1, 1]] :: board"
  have sq: "square ?H" by (simp add: square_def)
  have ne: "?H \<noteq> []" by simp
  have v: "compute_heuristic othello ?H 1 = Some (- 1 / 2 ^ 46)" by code_simp
  from compute_heuristic_is_sum_of_ratios[OF sq ne, of othello 1] v sq show ?thesis
    by simp
qed

text \<open>
  C7 as stated fails in two ways.  On the empty board \<^verbatim>\<open>board[0][0]\<close> raises
  \<^verbatim>\<open>IndexError\<close> and nothing is returned.  On the board below the three exact ratios are
  -100, 200/3 and 100/3, with the sum 0, and the code returns \<^verbatim>\<open>-1 / 2^46\<close>, in Python
  \<^verbatim>\<open>-1.4210854715202004e-14\<close>.
\<close>

theorem compute_heuristic_rounds_and_raises_counterexample:
  "compute_heuristic othello [] 1 = None \<and>
   compute_heuristic othello [[1, 0, 2, 0], [1, 1, 1, 1], [2, 2, 2, 2], [2, 1, 1, 1]] 1 = Some (- 1 / 2 ^ 46) \<and>
   mobility othello [[1, 0, 2, 0], [1, 1, 1, 1], [2, 2, 2, 2], [2, 1, 1, 1]] 1 = 0 \<and> mobility othello [[1, 0, 2, 0], [1, 1, 1, 1], [2, 2, 2, 2], [2, 1, 1, 1]] (other 1) = 2 \<and>
   potential [[1, 0, 2, 0], [1, 1, 1, 1], [2, 2, 2, 2], [2, 1, 1, 1]] 1 = 5 \<and> potential [[1, 0, 2, 0], [1, 1, 1, 1], [2, 2, 2, 2], [2, 1, 1, 1]] (other 1) = 1 \<and>
   corner_count [[1, 0, 2, 0], [1, 1, 1, 1], [2, 2, 2, 2], [2, 1, 1, 1]] 1 = 2 \<and> corner_count [[1, 0, 2, 0], [1, 1, 1, 1], [2, 2, 2, 2], [2, 1, 1, 1]] (other 1) = 1 \<and>
   ratio 0 2 + ratio 5 1 + ratio 2 1 = 0"
  by code_simp

text \<open>
  C8: a selector ignores the cache left by earlier calls: it starts from a new empty
  dictionary.  Hence two calls with the same arguments behave alike whatever the state of
  the module-level cache, in particular when the second call follows the first; and
  whenever two such calls return, also under different recursion bounds, they return the
  same move and leave the same cache.
\<close>

theorem selectors_are_deterministic:
  "select_move_minimax lib fuel g board color limit caching
     = select_move_minimax lib fuel g' board color limit caching \<and>
   select_move_alphabeta lib fuel g board color limit caching ordering'
     = select_move_alphabeta lib fuel g' board color limit caching ordering' \<and>
   (select_move_minimax lib fa ga board color limit caching = Some x \<and>
    select_move_minimax lib fb gb board color limit caching = Some y \<longrightarrow> x = y) \<and>
   (select_move_alphabeta lib fa ga board color limit caching ordering' = Some xa \<and>
    select_move_alphabeta lib fb gb board color limit caching ordering' = Some ya \<longrightarrow> xa = ya)"
proof -
  have mm: "x = y"
    if a: "select_move_minimax lib f1 ga board color limit caching = Some x"
      and b: "select_move_minimax lib (f1 + k) gb board color limit caching = Some y" for f1 k ga gb x y
  proof -
    from a obtain r where r: "minimax_max_node lib f1 Map.empty board color limit caching = Some r"
      by (auto simp: select_move_minimax_def split: option.splits)
    with minimax_node_mono[of lib f1 Map.empty board color limit caching r k]
    have "minimax_max_node lib (f1 + k) Map.empty board color limit caching = Some r" by blast
    with r a b show ?thesis
      by (auto simp: select_move_minimax_def split: option.splits)
  qed
  have ab: "x = y"
    if a: "select_move_alphabeta lib f1 ga board color limit caching ordering' = Some x"
      and b: "select_move_alphabeta lib (f1 + k) gb board color limit caching ordering' = Some y"
    for f1 k ga gb x y
  proof -
    from a obtain r where
      r: "alphabeta_max_node lib f1 Map.empty board color NegInf PosInf (limit - 1) caching ordering' = Some r"
      by (auto simp: select_move_alphabeta_def split: option.splits)
    with alphabeta_node_mono[of lib f1 Map.empty board color NegInf PosInf "limit - 1" caching ordering' r k]
    have "alphabeta_max_node lib (f1 + k) Map.empty board color NegInf PosInf (limit - 1) caching ordering' = Some r"
      by blast
    with r a b show ?thesis
      by (auto simp: select_move_alphabeta_def split: option.splits)
  qed
  have 3: "x = y"
    if "select_move_minimax lib fa ga board color limit caching = Some x"
       "select_move_minimax lib fb gb board color limit caching = Some y"
  proof (cases "fa \<le> fb")
    case True
    then obtain k where "fb = fa + k" using le_Suc_ex by blast
    with that mm show ?thesis by blast
  next
    case False
    then obtain k where "fa = fb + k" using le_Suc_ex nat_le_linear by blast
    with that mm[of fb gb y k ga x] show ?thesis by simp
  qed
  have 4: "xa = ya"
    if "select_move_alphabeta lib fa ga board color limit caching ordering' = Some xa"
       "select_move_alphabeta lib fb gb board color limit caching ordering' = Some ya"
  proof (cases "fa \<le> fb")
    case True
    then obtain k where "fb = fa + k" using le_Suc_ex by blast
    with that ab show ?thesis by blast
  next
    case False
    then obtain k where "fa = fb + k" using le_Suc_ex nat_le_linear by blast
    with that ab[of fb gb ya k ga xa] show ?thesis by simp
  qed
  have 1: "select_move_minimax lib fuel g board color limit caching
             = select_move_minimax lib fuel g' board color limit caching"
    by (simp add: select_move_minimax_def)
  have 2: "select_move_alphabeta lib fuel g board color limit caching ordering'
             = select_move_alphabeta lib fuel g' board color limit caching ordering'"
    by (simp add: select_move_alphabeta_def)
  from 1 2 3 4 show ?thesis by blast
qed

theorem selectors_are_deterministic_witness:
  "select_move_minimax othello 2 None [[1, 1, 0, 0], [2, 0, 0, 1], [0, 1, 1, 2], [2, 1, 2, 2]] 1 1 0
     = Some (Some (0, 2), Some Map.empty) \<and>
   select_move_minimax othello 3 (Some Map.empty) [[1, 1, 0, 0], [2, 0, 0, 1], [0, 1, 1, 2], [2, 1, 2, 2]] 1 1 0
     = Some (Some (0, 2), Some Map.empty) \<and>
   select_move_alphabeta othello 2 None [[1, 1, 0, 0], [2, 0, 0, 1], [0, 1, 1, 2], [2, 1, 2, 2]] 1 2 0 1
     = Some (Some (0, 2), Some Map.empty) \<and>
   select_move_alphabeta othello 3 (Some Map.empty) [[1, 1, 0, 0], [2, 0, 0, 1], [0, 1, 1, 2], [2, 1, 2, 2]] 1 2 0 1
     = Some (Some (0, 2), Some Map.empty)"
proof -
  let ?B = "[[1, 1, 0, 0], [2, 0, 0, 1], [0, 1, 1, 2], [2, 1, 2, 2]] :: board"
  have m: "map_option fst (minimax_max_node othello 2 Map.empty ?B 1 1 0) = Some (Some (0, 2), Fin 4)"
    by code_simp
  then obtain r where r: "minimax_max_node othello 2 Map.empty ?B 1 1 0 = Some r" by auto
  with m minimax_nocache_cache(1)[OF r] have r': "r = ((Some (0, 2), Fin 4), Map.empty)"
    by (cases r) auto
  from r r' have 1: "select_move_minimax othello 2 None ?B 1 1 0 = Some (Some (0, 2), Some Map.empty)"
    by (simp add: select_move_minimax_def)
  have a: "map_option fst (alphabeta_max_node othello 2 Map.empty ?B 1 NegInf PosInf (2 - 1) 0 1)
             = Some (Some (0, 2), Fin 4)"
    by code_simp
  then obtain q where q: "alphabeta_max_node othello 2 Map.empty ?B 1 NegInf PosInf (2 - 1) 0 1 = Some q"
    by auto
  with a alphabeta_nocache_cache(1)[OF q] have q': "q = ((Some (0, 2), Fin 4), Map.empty)"
    by (cases q) auto
  from q q' have 2: "select_move_alphabeta othello 2 None ?B 1 2 0 1 = Some (Some (0, 2), Some Map.empty)"
    by (simp add: select_move_alphabeta_def)
  from minimax_returns[of 1 3 othello Map.empty ?B 1 0]
  obtain y where y: "select_move_minimax othello 3 (Some Map.empty) ?B 1 1 0 = Some y"
    by (auto simp: select_move_minimax_def split: option.splits)
  from alphabeta_returns[of "2 - 1" 3 othello Map.empty ?B 1 NegInf PosInf 0 1]
  obtain z where z: "select_move_alphabeta othello 3 (Some Map.empty) ?B 1 2 0 1 = Some z"
    by (auto simp: select_move_alphabeta_def split: option.splits)
  from selectors_are_deterministic
         [where lib = othello and board = ?B and color = 1 and limit = 1 and caching = 0
            and fa = 2 and ga = None and x = "(Some (0, 2), Some Map.empty)"
            and fb = 3 and gb = "Some Map.empty" and y = y]
       1 y
  have 3: "y = (Some (0, 2), Some Map.empty)" by simp
  from selectors_are_deterministic
         [where lib = othello and board = ?B and color = 1 and limit = 2 and caching = 0 and ordering' = 1
            and fa = 2 and ga = None and xa = "(Some (0, 2), Some Map.empty)"
            and fb = 3 and gb = "Some Map.empty" and ya = z]
       2 z
  have 4: "z = (Some (0, 2), Some Map.empty)" by simp
  from 1 2 3 4 y z show ?thesis by simp
qed

text \<open>
  C9: with depth limit 1 the alpha-beta selector returns no move, whether or not the acting
  colour has legal moves: its root max node is entered with remaining depth 0 and returns
  the static evaluation.  The minimax selector with depth limit 1 returns a move whenever
  there is one.
\<close>

theorem alphabeta_depth_limit_one_returns_no_move:
  "(0 < fuel \<longrightarrow>
      alphabeta_root lib fuel board color 1 caching ordering' = Some (None, Fin (compute_utility lib board color)) \<and>
      map_option fst (select_move_alphabeta lib fuel g board color 1 caching ordering') = Some None) \<and>
   (1 < fuel \<and> get_possible_moves lib board color \<noteq> [] \<longrightarrow>
      (\<exists>m. map_option fst (select_move_minimax lib fuel g board color 1 caching) = Some (Some m)))"
proof -
  have A: "alphabeta_root lib fuel board color 1 caching ordering' = Some (None, Fin (compute_utility lib board color))"
    if "0 < fuel"
  proof -
    from that obtain f where f: "fuel = Suc f" by (cases fuel) auto
    show ?thesis
      by (simp add: alphabeta_root_def f alphabeta_max_node_unfold)
  qed
  have B: "\<exists>m. map_option fst (select_move_minimax lib fuel g board color 1 caching) = Some (Some m)"
    if "1 < fuel" "get_possible_moves lib board color \<noteq> []"
  proof -
    from that(1) obtain f where f: "fuel = Suc f" by (cases fuel) auto
    from that(1) minimax_returns[of 1 fuel lib Map.empty board color caching]
    obtain r where r: "minimax_max_node lib fuel Map.empty board color 1 caching = Some r"
      by auto
    from minimax_max_node_inner_move[OF utility_cache_empty r[unfolded f] lookup_empty that(2)]
    obtain m where "fst (fst r) = Some m" by auto
    with r show ?thesis
      by (simp add: select_move_minimax_root minimax_root_def)
  qed
  from A B show ?thesis
    by (simp add: select_move_alphabeta_root)
qed

theorem alphabeta_depth_limit_one_returns_no_move_witness:
  "get_possible_moves othello [[1, 1, 0, 0], [2, 0, 0, 1], [0, 1, 1, 2], [2, 1, 2, 2]] 1 = [(0, 2)] \<and>
   map_option fst (select_move_alphabeta othello 2 None [[1, 1, 0, 0], [2, 0, 0, 1], [0, 1, 1, 2], [2, 1, 2, 2]]
      1 1 0 0) = Some None \<and>
   (\<exists>m. map_option fst (select_move_minimax othello 2 None [[1, 1, 0, 0], [2, 0, 0, 1], [0, 1, 1, 2], [2, 1, 2, 2]]
      1 1 0) = Some (Some m))"
proof -
  have h: "get_possible_moves othello [[1, 1, 0, 0], [2, 0, 0, 1], [0, 1, 1, 2], [2, 1, 2, 2]] 1 = [(0, 2)]"
    by code_simp
  from alphabeta_depth_limit_one_returns_no_move
         [of 2 othello "[[1, 1, 0, 0], [2, 0, 0, 1], [0, 1, 1, 2], [2, 1, 2, 2]]" 1 0 0 None] h
  show ?thesis by simp
qed

text \<open>
  C10: every static evaluation in both searches is \<^verbatim>\<open>compute_utility\<close>.  A node whose
  board is not in the cache returns \<open>compute_utility\<close> of its board for the root colour
  when the mover has no move or the limit is 0; with ordering on, the successors are sorted
  by \<open>compute_utility\<close> (descending in a max node, ascending in a min node); and every
  value a selector's root call returns is \<open>compute_utility\<close> of some board.  The node
  functions and selectors do not refer to \<^verbatim>\<open>compute_heuristic\<close>.
\<close>

theorem search_evaluates_with_compute_utility:
  "(0 < fuel \<and> lookup caching cache board = None \<and> (get_possible_moves lib board color = [] \<or> limit = 0) \<longrightarrow>
      map_option fst (minimax_max_node lib fuel cache board color limit caching)
        = Some (None, Fin (compute_utility lib board color)) \<and>
      map_option fst (alphabeta_max_node lib fuel cache board color alpha beta limit caching ordering')
        = Some (None, Fin (compute_utility lib board color))) \<and>
   (0 < fuel \<and> lookup caching cache board = None \<and>
    (get_possible_moves lib board (other color) = [] \<or> limit = 0) \<longrightarrow>
      map_option fst (minimax_min_node lib fuel cache board color limit caching)
        = Some (None, Fin (compute_utility lib board color)) \<and>
      map_option fst (alphabeta_min_node lib fuel cache board color alpha beta limit caching ordering')
        = Some (None, Fin (compute_utility lib board color))) \<and>
   (lookup caching cache board = None \<and> get_possible_moves lib board color \<noteq> [] \<and> limit \<noteq> 0 \<and>
    ordering' \<noteq> 0 \<longrightarrow>
      alphabeta_max_node lib (Suc fuel) cache board color alpha beta limit caching ordering'
        = map_option (finish caching board)
            (alphabeta_max_loop lib fuel cache color alpha beta limit caching ordering'
               (sort_key (\<lambda>successor. - compute_utility lib (fst successor) color)
                  (map (\<lambda>move. (play_move lib board color (fst move) (snd move), move))
                     (get_possible_moves lib board color)))
               (None, NegInf))) \<and>
   (lookup caching cache board = None \<and> get_possible_moves lib board (other color) \<noteq> [] \<and> limit \<noteq> 0 \<and>
    ordering' \<noteq> 0 \<longrightarrow>
      alphabeta_min_node lib (Suc fuel) cache board color alpha beta limit caching ordering'
        = map_option (finish caching board)
            (alphabeta_min_loop lib fuel cache color alpha beta limit caching ordering'
               (sort_key (\<lambda>successor. compute_utility lib (fst successor) color)
                  (map (\<lambda>move. (play_move lib board (other color) (fst move) (snd move), move))
                     (get_possible_moves lib board (other color))))
               (None, PosInf))) \<and>
   (minimax_root lib fuel board color limit caching = Some (m, v) \<longrightarrow> is_utility lib color v) \<and>
   (alphabeta_root lib fuel board color limit caching ordering' = Some (m', v') \<longrightarrow> is_utility lib color v')"
proof (intro conjI impI)
  assume a: "0 < fuel \<and> lookup caching cache board = None \<and>
             (get_possible_moves lib board color = [] \<or> limit = 0)"
  then obtain f where f: "fuel = Suc f" by (cases fuel) auto
  from a show "map_option fst (minimax_max_node lib fuel cache board color limit caching)
        = Some (None, Fin (compute_utility lib board color))"
    by (auto simp: f minimax_max_node_unfold)
  from a show "map_option fst (alphabeta_max_node lib fuel cache board color alpha beta limit caching ordering')
        = Some (None, Fin (compute_utility lib board color))"
    by (auto simp: f alphabeta_max_node_unfold)
next
  assume a: "0 < fuel \<and> lookup caching cache board = None \<and>
             (get_possible_moves lib board (other color) = [] \<or> limit = 0)"
  then obtain f where f: "fuel = Suc f" by (cases fuel) auto
  from a show "map_option fst (minimax_min_node lib fuel cache board color limit caching)
        = Some (None, Fin (compute_utility lib board color))"
    by (auto simp: f minimax_min_node_unfold)
  from a show "map_option fst (alphabeta_min_node lib fuel cache board color alpha beta limit caching ordering')
        = Some (None, Fin (compute_utility lib board color))"
    by (auto simp: f alphabeta_min_node_unfold)
next
  assume "lookup caching cache board = None \<and> get_possible_moves lib board color \<noteq> [] \<and> limit \<noteq> 0 \<and>
    ordering' \<noteq> 0"
  then show "alphabeta_max_node lib (Suc fuel) cache board color alpha beta limit caching ordering'
        = map_option (finish caching board)
            (alphabeta_max_loop lib fuel cache color alpha beta limit caching ordering'
               (sort_key (\<lambda>successor. - compute_utility lib (fst successor) color)
                  (map (\<lambda>move. (play_move lib board color (fst move) (snd move), move))
                     (get_possible_moves lib board color)))
               (None, NegInf))"
    by (simp add: alphabeta_max_node_unfold max_successors_def sort_descending_def)
next
  assume "lookup caching cache board = None \<and> get_possible_moves lib board (other color) \<noteq> [] \<and> limit \<noteq> 0 \<and>
    ordering' \<noteq> 0"
  then show "alphabeta_min_node lib (Suc fuel) cache board color alpha beta limit caching ordering'
        = map_option (finish caching board)
            (alphabeta_min_loop lib fuel cache color alpha beta limit caching ordering'
               (sort_key (\<lambda>successor. compute_utility lib (fst successor) color)
                  (map (\<lambda>move. (play_move lib board (other color) (fst move) (snd move), move))
                     (get_possible_moves lib board (other color))))
               (None, PosInf))"
    by (simp add: alphabeta_min_node_unfold min_successors_def sort_ascending_def)
next
  assume "minimax_root lib fuel board color limit caching = Some (m, v)"
  then obtain r where r: "minimax_max_node lib fuel Map.empty board color limit caching = Some r"
    and v: "snd (fst r) = v"
    by (auto simp: minimax_root_def)
  from minimax_node_ok[where lib=lib and col=color and c=Map.empty and f=fuel and b=board and lm=limit
         and ca=caching and r=r, OF utility_cache_empty] r v
  show "is_utility lib color v" by (simp add: node_ok_def)
next
  assume "alphabeta_root lib fuel board color limit caching ordering' = Some (m', v')"
  then obtain r where
    r: "alphabeta_max_node lib fuel Map.empty board color NegInf PosInf (limit - 1) caching ordering' = Some r"
    and v: "snd (fst r) = v'"
    by (auto simp: alphabeta_root_def)
  from alphabeta_node_ok[where lib=lib and col=color and c=Map.empty and f=fuel and b=board and alpha=NegInf
         and beta=PosInf and lm="limit - 1" and ca=caching and ord=ordering' and r=r, OF utility_cache_empty] r v
  show "is_utility lib color v'" by (simp add: node_ok_def)
qed

theorem search_evaluates_with_compute_utility_witness:
  "map_option fst (minimax_max_node othello 1 Map.empty [[1, 1, 0, 0], [2, 0, 0, 1], [0, 1, 1, 2], [2, 1, 2, 2]] 1 0 1)
     = Some (None, Fin 1) \<and>
   map_option fst (alphabeta_min_node othello 1 Map.empty [[1, 1, 0, 0], [2, 0, 0, 1], [0, 1, 1, 2], [2, 1, 2, 2]] 1
                     NegInf PosInf 0 1 1)
     = Some (None, Fin 1) \<and>
   minimax_root othello 5 [[1, 1, 0, 0], [2, 0, 0, 1], [0, 1, 1, 2], [2, 1, 2, 2]] 1 4 1
     = Some (Some (0, 2), Fin (- 3)) \<and>
   is_utility othello 1 (Fin (- 3)) \<and>
   alphabeta_root othello 5 [[1, 1, 0, 0], [2, 0, 0, 1], [0, 1, 1, 2], [2, 1, 2, 2]] 1 5 1 1
     = Some (Some (0, 2), Fin (- 3))"
proof -
  let ?B = "[[1, 1, 0, 0], [2, 0, 0, 1], [0, 1, 1, 2], [2, 1, 2, 2]] :: board"
  note t = search_evaluates_with_compute_utility[where lib = othello and board = ?B and color = 1]
  have u: "compute_utility othello ?B 1 = 1" by code_simp
  have h: "(0::nat) < 1 \<and> lookup 1 Map.empty ?B = None \<and> (get_possible_moves othello ?B 1 = [] \<or> (0::int) = 0)"
    by (simp add: lookup_def)
  from t[where fuel = 1 and caching = 1 and cache = Map.empty and limit = 0, THEN conjunct1, rule_format, OF h] u
  have 1: "map_option fst (minimax_max_node othello 1 Map.empty ?B 1 0 1) = Some (None, Fin 1)"
    by simp
  have h2: "(0::nat) < 1 \<and> lookup 1 Map.empty ?B = None \<and>
            (get_possible_moves othello ?B (other 1) = [] \<or> (0::int) = 0)"
    by (simp add: lookup_def)
  from t[where fuel = 1 and caching = 1 and cache = Map.empty and limit = 0 and alpha = NegInf and beta = PosInf
           and ordering' = 1, THEN conjunct2, THEN conjunct1, rule_format, OF h2] u
  have 2: "map_option fst (alphabeta_min_node othello 1 Map.empty ?B 1 NegInf PosInf 0 1 1) = Some (None, Fin 1)"
    by simp
  have r: "minimax_root othello 5 ?B 1 4 1 = Some (Some (0, 2), Fin (- 3))" by code_simp
  have a: "alphabeta_root othello 5 ?B 1 5 1 1 = Some (Some (0, 2), Fin (- 3))" by code_simp
  from t[where fuel = 5 and caching = 1 and limit = 4 and m = "Some (0, 2)" and v = "Fin (- 3)",
         THEN conjunct2, THEN conjunct2, THEN conjunct2, THEN conjunct2, THEN conjunct1, rule_format, OF r]
  have 3: "is_utility othello 1 (Fin (- 3))" .
  from 1 2 r 3 a show ?thesis by blast
qed

end
